theory Spec2Isabelle
  imports Main
begin

section \<open>Exceptions and values\<close>

text \<open>
  The exceptions that the modelled code can meet; \<open>OSError\<close> stands for the errors
  of the operating system that have no class of their own. All of them except
  \<open>KeyboardInterrupt\<close> are subclasses of Python's \<open>Exception\<close>, which is what
  the handlers \<open>except Exception\<close> of the source catch.
\<close>

datatype exn =
    FileExistsError
  | FileNotFoundError
  | NotADirectoryError
  | IsADirectoryError
  | JSONDecodeError
  | AttributeError
  | TypeError
  | IndexError
  | ValueError
  | OSError string
  | ClientError string
  | KeyboardInterrupt

definition is_Exception :: "exn \<Rightarrow> bool" where
  "is_Exception e = (e \<noteq> KeyboardInterrupt)"

text \<open>
  What \<open>json.load\<close> returns: hashable scalars (\<open>atom\<close>), lists and dicts.
  A Python \<open>set\<close> holds hashable values only; it is modelled as a list of atoms
  without repetition whose order is never observed (floats are left out, and Python's
  identification of \<open>True\<close> with \<open>1\<close> is not modelled).
\<close>

datatype atom = PyNone | PyBool bool | PyInt int | PyStr string

datatype json = Atom atom | Arr "json list" | Obj "(string \<times> json) list"

text \<open>
  The bytes of a file: either a JSON text, given by the value \<open>json.load\<close> parses it
  to, or bytes that \<open>json.load\<close> rejects with \<open>JSONDecodeError\<close>.
\<close>

datatype content = Bytes string | Json json

section \<open>Paths and the local filesystem\<close>

text \<open>
  A filesystem maps a location, the list of names that leads to it from the working
  directory, to a node. The working directory is the location \<open>[]\<close>; it always exists
  and is its own parent. Path strings are resolved the POSIX way: components are
  separated by \<open>/\<close>, empty components (repeated or trailing separators) are dropped,
  \<open>.\<close> stays in the directory reached so far and \<open>..\<close> goes to its parent, both only
  when that directory exists, and a trailing separator requires a directory. A name
  longer than \<open>NAME_MAX\<close>, a path of \<open>PATH_MAX\<close> bytes or more and a path with a null
  byte are refused. Symbolic links, permissions and the transient failures of the
  operating system (a full disk, an interrupted call) are not modelled.
\<close>

datatype node = File content | Dir

type_synonym fs = "string list \<Rightarrow> node option"

fun split_slash :: "string \<Rightarrow> string list" where
  "split_slash [] = [[]]"
| "split_slash (c # cs) =
     (if c = CHR ''/'' then [] # split_slash cs
      else (case split_slash cs of [] \<Rightarrow> [[c]] | w # ws \<Rightarrow> (c # w) # ws))"

definition comps :: "string \<Rightarrow> string list" where
  "comps p = filter (\<lambda>w. w \<noteq> []) (split_slash p)"

definition trailing :: "string \<Rightarrow> bool" where
  "trailing p = (p \<noteq> [] \<and> last p = CHR ''/'')"

definition NAME_MAX :: nat where
  "NAME_MAX = 255"

definition PATH_MAX :: nat where
  "PATH_MAX = 4096"

text \<open>The node at a location.\<close>

definition lookup :: "fs \<Rightarrow> string list \<Rightarrow> node option" where
  "lookup fs loc = (if loc = [] then Some Dir else fs loc)"

text \<open>The error of a call that finds nothing at a location: \<open>NotADirectoryError\<close>
  when a regular file lies on the way to it, \<open>FileNotFoundError\<close> otherwise.\<close>

fun file_above :: "fs \<Rightarrow> string list \<Rightarrow> string list \<Rightarrow> bool" where
  "file_above fs pre [] = False"
| "file_above fs pre (c # cs) =
     (case fs (pre @ [c]) of
        Some (File x) \<Rightarrow> True
      | Some Dir \<Rightarrow> file_above fs (pre @ [c]) cs
      | None \<Rightarrow> file_above fs (pre @ [c]) cs)"

definition missing :: "fs \<Rightarrow> string list \<Rightarrow> exn" where
  "missing fs loc = (if file_above fs [] loc then NotADirectoryError else FileNotFoundError)"

text \<open>
  The location that a list of components leads to from the location \<open>cur\<close>. The
  components \<open>.\<close> and \<open>..\<close> need the directory they are applied to. A name is descended
  into without a look at the directory that holds it: on a disk where every node lies
  in a directory, the calls below give the result of the system calls, which look at
  each directory in turn, since they look at the node found and at its parent.
\<close>

fun walk :: "fs \<Rightarrow> string list \<Rightarrow> string list \<Rightarrow> exn + string list" where
  "walk fs cur [] = Inr cur"
| "walk fs cur (c # cs) =
     (if c = ''.'' \<or> c = ''..'' then
        (case lookup fs cur of
           None \<Rightarrow> Inl (missing fs cur)
         | Some (File x) \<Rightarrow> Inl NotADirectoryError
         | Some Dir \<Rightarrow> walk fs (if c = ''.'' then cur else butlast cur) cs)
      else if NAME_MAX < length c then Inl (OSError ''File name too long'')
      else walk fs (cur @ [c]) cs)"

text \<open>The node that a list of components leads to from the working directory.\<close>

definition node_at :: "fs \<Rightarrow> string list \<Rightarrow> node option" where
  "node_at fs cs = (case walk fs [] cs of Inl e \<Rightarrow> None | Inr loc \<Rightarrow> lookup fs loc)"

text \<open>What every call checks of the path string itself before it looks at the disk.\<close>

definition path_error :: "string \<Rightarrow> exn option" where
  "path_error p =
     (if CHR 0x00 \<in> set p then Some ValueError
      else if p = [] then Some FileNotFoundError
      else if PATH_MAX \<le> length p then Some (OSError ''File name too long'')
      else None)"

definition resolve :: "fs \<Rightarrow> string \<Rightarrow> exn + string list" where
  "resolve fs p = (case path_error p of Some e \<Rightarrow> Inl e | None \<Rightarrow> walk fs [] (comps p))"

text \<open>\<open>os.path.dirname\<close> of \<open>posixpath\<close>: everything up to the last separator, with
  the trailing separators of that head stripped unless it consists of separators only.\<close>

definition os_path_dirname :: "string \<Rightarrow> string" where
  "os_path_dirname p =
     (let head = rev (dropWhile (\<lambda>c. c \<noteq> CHR ''/'') (rev p))
      in if filter (\<lambda>c. c \<noteq> CHR ''/'') head \<noteq> []
         then rev (dropWhile (\<lambda>c. c = CHR ''/'') (rev head))
         else head)"

text \<open>\<open>os.path.exists\<close>: true for files and directories, false when the path cannot
  be resolved; it never raises.\<close>

definition os_path_exists :: "fs \<Rightarrow> string \<Rightarrow> bool" where
  "os_path_exists fs p =
     (case resolve fs p of
        Inl e \<Rightarrow> False
      | Inr loc \<Rightarrow>
          (case lookup fs loc of
             None \<Rightarrow> False
           | Some Dir \<Rightarrow> True
           | Some (File c) \<Rightarrow> \<not> trailing p))"

text \<open>
  \<open>os.makedirs(p, exist_ok=True)\<close>: goes through the components from the working
  directory and creates the directories that are missing. An existing directory is
  accepted; a regular file in the way raises (\<open>FileExistsError\<close> at the last
  component, \<open>NotADirectoryError\<close> before). An error carries the filesystem as it is
  when the exception leaves. For a path that \<open>path_error\<close> refuses (a null byte,
  \<open>PATH_MAX\<close>), the directories that Python creates before \<open>mkdir\<close> meets the
  refused prefix are left out of that filesystem.
\<close>

fun mkdirs :: "fs \<Rightarrow> string list \<Rightarrow> string list \<Rightarrow> (exn \<times> fs) + fs" where
  "mkdirs fs cur [] = Inr fs"
| "mkdirs fs cur (c # cs) =
     (if c = ''.'' then mkdirs fs cur cs
      else if c = ''..'' then
        (case lookup fs (butlast cur) of
           None \<Rightarrow> Inl (missing fs (butlast cur), fs)
         | Some (File x) \<Rightarrow> Inl (NotADirectoryError, fs)
         | Some Dir \<Rightarrow> mkdirs fs (butlast cur) cs)
      else if NAME_MAX < length c then Inl (OSError ''File name too long'', fs)
      else (case fs (cur @ [c]) of
              None \<Rightarrow> mkdirs (fs(cur @ [c] \<mapsto> Dir)) (cur @ [c]) cs
            | Some Dir \<Rightarrow> mkdirs fs (cur @ [c]) cs
            | Some (File x) \<Rightarrow>
                Inl (if cs = [] then FileExistsError else NotADirectoryError, fs)))"

definition os_makedirs :: "fs \<Rightarrow> string \<Rightarrow> (exn \<times> fs) + fs" where
  "os_makedirs fs p =
     (case path_error p of Some e \<Rightarrow> Inl (e, fs) | None \<Rightarrow> mkdirs fs [] (comps p))"

text \<open>\<open>open(p, "w")\<close> and \<open>open(p, "wb")\<close>: create the file or truncate it. A
  directory cannot be opened for writing, a new file needs its parent directory, and a
  path with a trailing separator is refused as a directory.\<close>

definition open_w :: "fs \<Rightarrow> string \<Rightarrow> (exn \<times> fs) + fs" where
  "open_w fs p =
     (case resolve fs p of
        Inl e \<Rightarrow> Inl (e, fs)
      | Inr loc \<Rightarrow>
          (case lookup fs loc of
             Some Dir \<Rightarrow> Inl (IsADirectoryError, fs)
           | Some (File c) \<Rightarrow>
               if trailing p then Inl (IsADirectoryError, fs)
               else Inr (fs(loc \<mapsto> File (Bytes [])))
           | None \<Rightarrow>
               (case lookup fs (butlast loc) of
                  Some Dir \<Rightarrow>
                    if trailing p then Inl (IsADirectoryError, fs)
                    else Inr (fs(loc \<mapsto> File (Bytes [])))
                | Some (File c) \<Rightarrow> Inl (NotADirectoryError, fs)
                | None \<Rightarrow> Inl (missing fs (butlast loc), fs))))"

text \<open>Writing through the handle of an open file replaces its bytes.\<close>

definition write_open :: "fs \<Rightarrow> string \<Rightarrow> content \<Rightarrow> fs" where
  "write_open fs p c = (case resolve fs p of Inl e \<Rightarrow> fs | Inr loc \<Rightarrow> fs(loc \<mapsto> File c))"

text \<open>\<open>open(p, "r")\<close> followed by reading the whole file.\<close>

definition read_file :: "fs \<Rightarrow> string \<Rightarrow> exn + content" where
  "read_file fs p =
     (case resolve fs p of
        Inl e \<Rightarrow> Inl e
      | Inr loc \<Rightarrow>
          (case lookup fs loc of
             None \<Rightarrow> Inl (missing fs loc)
           | Some Dir \<Rightarrow> Inl IsADirectoryError
           | Some (File c) \<Rightarrow> if trailing p then Inl NotADirectoryError else Inr c))"

text \<open>\<open>os.remove\<close>: deletes a regular file, raises on a directory or a missing path.\<close>

definition os_remove :: "fs \<Rightarrow> string \<Rightarrow> (exn \<times> fs) + fs" where
  "os_remove fs p =
     (case resolve fs p of
        Inl e \<Rightarrow> Inl (e, fs)
      | Inr loc \<Rightarrow>
          (case lookup fs loc of
             None \<Rightarrow> Inl (missing fs loc, fs)
           | Some Dir \<Rightarrow> Inl (IsADirectoryError, fs)
           | Some (File c) \<Rightarrow>
               if trailing p then Inl (NotADirectoryError, fs)
               else Inr (fs(loc := None))))"

section \<open>The download log (export.py)\<close>

definition DOWNLOAD_LOG_FILE :: string where
  "DOWNLOAD_LOG_FILE = ''download_log.json''"

definition log_filepath :: "string \<Rightarrow> string" where
  "log_filepath local_path = local_path @ ''/'' @ DOWNLOAD_LOG_FILE"

text \<open>The atoms of a list of JSON values, or \<open>None\<close> when one of them is unhashable.\<close>

fun atoms_of :: "json list \<Rightarrow> atom list option" where
  "atoms_of [] = Some []"
| "atoms_of (Atom a # vs) = (case atoms_of vs of None \<Rightarrow> None | Some as \<Rightarrow> Some (a # as))"
| "atoms_of (v # vs) = None"

text \<open>Python's \<open>set(v)\<close>: iterates a list, the keys of a dict or the characters of a
  string; \<open>TypeError\<close> on an unhashable element and on a value that is not iterable.\<close>

fun py_set :: "json \<Rightarrow> exn + atom list" where
  "py_set (Arr vs) = (case atoms_of vs of None \<Rightarrow> Inl TypeError | Some as \<Rightarrow> Inr (remdups as))"
| "py_set (Obj kvs) = Inr (remdups (map (\<lambda>kv. PyStr (fst kv)) kvs))"
| "py_set (Atom (PyStr s)) = Inr (remdups (map (\<lambda>c. PyStr [c]) s))"
| "py_set (Atom a) = Inl TypeError"

text \<open>The body of the \<open>try\<close> in \<open>get_download_log\<close>:
  \<open>set(json.load(f).get("downloaded_files", []))\<close>.\<close>

definition read_download_log :: "fs \<Rightarrow> string \<Rightarrow> exn + atom list" where
  "read_download_log fs local_path =
     (case read_file fs (log_filepath local_path) of
        Inl e \<Rightarrow> Inl e
      | Inr (Bytes b) \<Rightarrow> Inl JSONDecodeError
      | Inr (Json data) \<Rightarrow>
          (case data of
             Obj kvs \<Rightarrow>
               (case map_of kvs ''downloaded_files'' of
                  None \<Rightarrow> Inr []
                | Some v \<Rightarrow> py_set v)
           | Arr vs \<Rightarrow> Inl AttributeError
           | Atom a \<Rightarrow> Inl AttributeError))"

text \<open>\<open>get_download_log\<close> returns the set together with the flag "a warning was
  logged". The handler is \<open>except (json.JSONDecodeError, Exception)\<close>.\<close>

definition get_download_log :: "fs \<Rightarrow> string \<Rightarrow> exn + (atom list \<times> bool)" where
  "get_download_log fs local_path =
     (if os_path_exists fs (log_filepath local_path) then
        (case read_download_log fs local_path of
           Inr keys \<Rightarrow> Inr (keys, False)
         | Inl e \<Rightarrow> if is_Exception e then Inr ([], True) else Inl e)
      else Inr ([], False))"

definition ledger_doc :: "atom list \<Rightarrow> content" where
  "ledger_doc downloaded_files = Json (Obj [(''downloaded_files'', Arr (map Atom downloaded_files))])"

definition save_download_log :: "fs \<Rightarrow> string \<Rightarrow> atom list \<Rightarrow> (exn \<times> fs) + fs" where
  "save_download_log fs local_path downloaded_files =
     (case os_makedirs fs local_path of
        Inl err \<Rightarrow> Inl err
      | Inr fs1 \<Rightarrow>
          (case open_w fs1 (log_filepath local_path) of
             Inl err \<Rightarrow> Inl err
           | Inr fs2 \<Rightarrow> Inr (write_open fs2 (log_filepath local_path) (ledger_doc downloaded_files))))"

text \<open>\<open>add_to_download_log\<close> mutates the set it is given and then saves: the set
  after the call is returned beside the outcome of the save, since the caller keeps
  the mutated set also when the save raises.\<close>

definition add_to_download_log ::
  "fs \<Rightarrow> string \<Rightarrow> string \<Rightarrow> atom list \<Rightarrow> atom list \<times> ((exn \<times> fs) + fs)" where
  "add_to_download_log fs local_path file_key downloaded_files =
     (let downloaded_files' = List.insert (PyStr file_key) downloaded_files
      in (downloaded_files', save_download_log fs local_path downloaded_files'))"

section \<open>Object records and the storage client\<close>

record object_record =
  Key :: string

record response =
  Contents :: "object_record list option"
  IsTruncated :: bool
  NextContinuationToken :: "string option"

text \<open>The outcome of \<open>client.download_fileobj\<close>: the bytes it wrote into the open file,
  and the exception it raised if it did not complete.\<close>

datatype transfer = Completed content | Aborted content exn

record client =
  list_objects_v2 :: "string \<Rightarrow> string option \<Rightarrow> exn + response"
  download_fileobj :: "string \<Rightarrow> string \<Rightarrow> transfer"

section \<open>Directory creation (export.py)\<close>

fun create_each :: "object_record list \<Rightarrow> string \<Rightarrow> fs \<Rightarrow> (exn \<times> fs) + fs" where
  "create_each [] local_filepath fs = Inr fs"
| "create_each (directory # directories) local_filepath fs =
     (case os_makedirs fs (local_filepath @ ''/'' @ Key directory) of
        Inl err \<Rightarrow> Inl err
      | Inr fs' \<Rightarrow> create_each directories local_filepath fs')"

text \<open>The handler of \<open>create_directories\<close> re-raises what it catches.\<close>

definition create_directories :: "object_record list \<Rightarrow> string \<Rightarrow> fs \<Rightarrow> (exn \<times> fs) + fs" where
  "create_directories directories local_filepath fs =
     (case os_makedirs fs local_filepath of
        Inl err \<Rightarrow> Inl err
      | Inr fs' \<Rightarrow> create_each directories local_filepath fs')"

section \<open>The download loop (export.py)\<close>

datatype classification = Downloaded | Skipped_exists | Skipped_logged | Failed

record stats =
  downloaded :: nat
  skipped_exists :: nat
  skipped_logged :: nat
  failed :: nat

text \<open>The state of the loop: the counters, the in-memory set, the disk, and the
  per-file messages written to the logger so far (key and classification).\<close>

record loop_state =
  stats_of :: stats
  downloaded_files :: "atom list"
  disk :: fs
  logged :: "(string \<times> classification) list"

definition count :: "classification \<Rightarrow> stats \<Rightarrow> stats" where
  "count c st =
     (case c of
        Downloaded \<Rightarrow> st\<lparr>downloaded := downloaded st + 1\<rparr>
      | Skipped_exists \<Rightarrow> st\<lparr>skipped_exists := skipped_exists st + 1\<rparr>
      | Skipped_logged \<Rightarrow> st\<lparr>skipped_logged := skipped_logged st + 1\<rparr>
      | Failed \<Rightarrow> st\<lparr>failed := failed st + 1\<rparr>)"

definition classify ::
  "string \<Rightarrow> classification \<Rightarrow> atom list \<Rightarrow> fs \<Rightarrow> loop_state \<Rightarrow> loop_state" where
  "classify file_key c keys fs s =
     \<lparr>stats_of = count c (stats_of s), downloaded_files = keys, disk = fs,
      logged = logged s @ [(file_key, c)]\<rparr>"

text \<open>The body of the inner \<open>try\<close>: open the target, download into it, add the key
  to the download log.\<close>

definition attempt_download ::
  "client \<Rightarrow> string \<Rightarrow> string \<Rightarrow> string \<Rightarrow> atom list \<Rightarrow> fs
     \<Rightarrow> atom list \<times> ((exn \<times> fs) + fs)" where
  "attempt_download cl bucket_name local_path file_key keys fs =
     (let local_filepath = local_path @ ''/'' @ file_key
      in case open_w fs local_filepath of
           Inl err \<Rightarrow> (keys, Inl err)
         | Inr fs1 \<Rightarrow>
             (case download_fileobj cl bucket_name file_key of
                Aborted c e \<Rightarrow> (keys, Inl (e, write_open fs1 local_filepath c))
              | Completed c \<Rightarrow>
                  add_to_download_log (write_open fs1 local_filepath c) local_path file_key keys))"

text \<open>One iteration of the \<open>for\<close> loop of \<open>download_objects\<close>.\<close>

definition process_file ::
  "client \<Rightarrow> string \<Rightarrow> string \<Rightarrow> object_record \<Rightarrow> loop_state \<Rightarrow> (exn \<times> fs) + loop_state" where
  "process_file cl bucket_name local_path file s =
     (let file_key = Key file;
          local_filepath = local_path @ ''/'' @ file_key
      in if PyStr file_key \<in> set (downloaded_files s) then
           Inr (classify file_key Skipped_logged (downloaded_files s) (disk s) s)
         else if os_path_exists (disk s) local_filepath then
           (case add_to_download_log (disk s) local_path file_key (downloaded_files s) of
              (keys, Inl err) \<Rightarrow> Inl err
            | (keys, Inr fs') \<Rightarrow> Inr (classify file_key Skipped_exists keys fs' s))
         else
           (case os_makedirs (disk s) (os_path_dirname local_filepath) of
              Inl err \<Rightarrow> Inl err
            | Inr fs1 \<Rightarrow>
                (case attempt_download cl bucket_name local_path file_key (downloaded_files s) fs1 of
                   (keys, Inr fs2) \<Rightarrow> Inr (classify file_key Downloaded keys fs2 s)
                 | (keys, Inl (e, fs2)) \<Rightarrow>
                     if is_Exception e then
                       (if os_path_exists fs2 local_filepath then
                          (case os_remove fs2 local_filepath of
                             Inl err \<Rightarrow> Inl err
                           | Inr fs3 \<Rightarrow> Inr (classify file_key Failed keys fs3 s))
                        else Inr (classify file_key Failed keys fs2 s))
                     else Inl (e, fs2))))"

fun download_loop ::
  "client \<Rightarrow> string \<Rightarrow> string \<Rightarrow> object_record list \<Rightarrow> loop_state \<Rightarrow> (exn \<times> fs) + loop_state" where
  "download_loop cl bucket_name local_path [] s = Inr s"
| "download_loop cl bucket_name local_path (file # files) s =
     (case process_file cl bucket_name local_path file s of
        Inl err \<Rightarrow> Inl err
      | Inr s' \<Rightarrow> download_loop cl bucket_name local_path files s')"

definition zero_stats :: stats where
  "zero_stats = \<lparr>downloaded = 0, skipped_exists = 0, skipped_logged = 0, failed = 0\<rparr>"

text \<open>\<open>download_objects\<close>: the returned dict is \<open>stats_of\<close> of the final state. The
  handler of the outer \<open>try\<close> catches \<open>KeyboardInterrupt\<close> only, logs, and re-raises.\<close>

definition download_objects ::
  "client \<Rightarrow> object_record list \<Rightarrow> string \<Rightarrow> string \<Rightarrow> fs \<Rightarrow> (exn \<times> fs) + loop_state" where
  "download_objects cl files bucket_name local_path fs =
     (case get_download_log fs local_path of
        Inl e \<Rightarrow> Inl (e, fs)
      | Inr (keys, warned) \<Rightarrow>
          download_loop cl bucket_name local_path files
            \<lparr>stats_of = zero_stats, downloaded_files = keys, disk = fs, logged = []\<rparr>)"

section \<open>Listing (fetch.py)\<close>

text \<open>The \<open>while True\<close> loop of \<open>list_objects_in_bucket\<close>. It need not terminate: a
  service that keeps answering "truncated" is followed forever, which is the value
  \<open>None\<close>. A token that is \<open>None\<close> or the empty string is falsy, and the request is
  then made without a token.\<close>

partial_function (option) list_loop ::
  "client \<Rightarrow> string \<Rightarrow> string option \<Rightarrow> object_record list \<Rightarrow> (exn + object_record list) option" where
  "list_loop cl bucket_name continuation_token all_objects =
     (case (case continuation_token of
              None \<Rightarrow> list_objects_v2 cl bucket_name None
            | Some t \<Rightarrow> if t \<noteq> [] then list_objects_v2 cl bucket_name (Some t)
                        else list_objects_v2 cl bucket_name None) of
        Inl e \<Rightarrow> Some (Inl e)
      | Inr resp \<Rightarrow>
          (let all_objects' = (case Contents resp of
                                 None \<Rightarrow> all_objects
                               | Some page \<Rightarrow> all_objects @ page)
           in if IsTruncated resp
              then list_loop cl bucket_name (NextContinuationToken resp) all_objects'
              else Some (Inr all_objects')))"

definition list_objects_in_bucket ::
  "client \<Rightarrow> string \<Rightarrow> (exn + object_record list) option" where
  "list_objects_in_bucket cl bucket_name = list_loop cl bucket_name None []"

section \<open>The run controller (__init__.py)\<close>

text \<open>\<open>key[-1]\<close>: the last character, \<open>IndexError\<close> on the empty string.\<close>

definition last_char :: "string \<Rightarrow> exn + char" where
  "last_char k = (case k of [] \<Rightarrow> Inl IndexError | c # cs \<Rightarrow> Inr (last k))"

text \<open>A list comprehension \<open>[o for o in objects if P(o["Key"][-1])]\<close>.\<close>

fun select_by_last ::
  "(char \<Rightarrow> bool) \<Rightarrow> object_record list \<Rightarrow> exn + object_record list" where
  "select_by_last P [] = Inr []"
| "select_by_last P (x # xs) =
     (case last_char (Key x) of
        Inl e \<Rightarrow> Inl e
      | Inr c \<Rightarrow>
          (case select_by_last P xs of
             Inl e \<Rightarrow> Inl e
           | Inr ys \<Rightarrow> Inr (if P c then x # ys else ys)))"

definition partition_objects ::
  "object_record list \<Rightarrow> exn + (object_record list \<times> object_record list)" where
  "partition_objects objects =
     (case select_by_last (\<lambda>c. c \<noteq> CHR ''/'') objects of
        Inl e \<Rightarrow> Inl e
      | Inr files \<Rightarrow>
          (case select_by_last (\<lambda>c. c = CHR ''/'') objects of
             Inl e \<Rightarrow> Inl e
           | Inr directories \<Rightarrow> Inr (files, directories)))"

text \<open>How a run of \<open>init_script\<close> ends: the summary with the statistics and the
  "total processed" count, the interruption message, or the logged error.\<close>

datatype outcome = Summary stats nat | Interrupted | Error_logged exn

definition handle_exn :: "exn \<Rightarrow> fs \<Rightarrow> outcome \<times> fs" where
  "handle_exn e fs = (if e = KeyboardInterrupt then Interrupted else Error_logged e, fs)"

text \<open>\<open>init_script\<close>. The client that \<open>create_client()\<close> returns and the two
  configuration constants (bucket name and export path) are parameters. The result is
  \<open>None\<close> when the listing does not terminate; otherwise it is how the run ends, with
  the disk it leaves.\<close>

definition init_script :: "client \<Rightarrow> string \<Rightarrow> string \<Rightarrow> fs \<Rightarrow> (outcome \<times> fs) option" where
  "init_script cl bucket_name export_path fs =
     (case get_download_log fs export_path of
        Inl e \<Rightarrow> Some (handle_exn e fs)
      | Inr existing_log \<Rightarrow>
          (case list_objects_in_bucket cl bucket_name of
             None \<Rightarrow> None
           | Some (Inl e) \<Rightarrow> Some (handle_exn e fs)
           | Some (Inr objects) \<Rightarrow>
               Some (case partition_objects objects of
                       Inl e \<Rightarrow> handle_exn e fs
                     | Inr (files, directories) \<Rightarrow>
                         (case create_directories directories export_path fs of
                            Inl (e, fs') \<Rightarrow> handle_exn e fs'
                          | Inr fs1 \<Rightarrow>
                              (case download_objects cl files bucket_name export_path fs1 of
                                 Inl (e, fs') \<Rightarrow> handle_exn e fs'
                               | Inr s \<Rightarrow> (Summary (stats_of s) (length files), disk s))))))"

section \<open>Example collaborators\<close>

text \<open>A storage client whose listing is the single page \<open>objects\<close> and whose downloads
  end as \<open>dl\<close> says, and the empty disk.\<close>

definition demo_client :: "object_record list \<Rightarrow> (string \<Rightarrow> transfer) \<Rightarrow> client" where
  "demo_client objects dl =
     \<lparr>list_objects_v2 =
        (\<lambda>bucket_name token.
           Inr \<lparr>Contents = Some objects, IsTruncated = False, NextContinuationToken = None\<rparr>),
      download_fileobj = (\<lambda>bucket_name file_key. dl file_key)\<rparr>"

definition completes :: "string \<Rightarrow> transfer" where
  "completes file_key = Completed (Bytes ''data'')"

definition breaks :: "string \<Rightarrow> transfer" where
  "breaks file_key = Aborted (Bytes ''da'') (ClientError ''connection reset'')"

definition empty_disk :: fs where
  "empty_disk = (\<lambda>cs. None)"

text \<open>A storage service that serves the listing in the given pages: the request without
  a token answers the first page, the token of page \<open>i\<close> is a string of \<open>i\<close>
  characters, and every page but the last is truncated.\<close>

definition page_index :: "string option \<Rightarrow> nat" where
  "page_index token = (case token of None \<Rightarrow> 0 | Some t \<Rightarrow> length t)"

definition paged_client :: "object_record list list \<Rightarrow> client" where
  "paged_client pages =
     \<lparr>list_objects_v2 =
        (\<lambda>bucket_name token.
           Inr \<lparr>Contents = (if page_index token < length pages
                             then Some (pages ! page_index token) else None),
                IsTruncated = (Suc (page_index token) < length pages),
                NextContinuationToken =
                  (if Suc (page_index token) < length pages
                   then Some (replicate (Suc (page_index token)) CHR ''t'') else None)\<rparr>),
      download_fileobj = (\<lambda>bucket_name file_key. Completed (Bytes []))\<rparr>"

text \<open>The record number \<open>n\<close> of an example listing.\<close>

definition numbered :: "nat \<Rightarrow> object_record" where
  "numbered n = \<lparr>Key = ''obj-'' @ replicate n CHR ''x''\<rparr>"

text \<open>A storage service that cannot be reached.\<close>

definition unreachable_client :: client where
  "unreachable_client =
     \<lparr>list_objects_v2 = (\<lambda>bucket_name token. Inl (ClientError ''timeout'')),
      download_fileobj = (\<lambda>bucket_name file_key. Aborted (Bytes []) (ClientError ''timeout''))\<rparr>"

section \<open>Notions used in the statements\<close>

text \<open>The counters agree with the classifications logged so far.\<close>

definition tallied :: "loop_state \<Rightarrow> bool" where
  "tallied s =
    (downloaded (stats_of s) = count_list (map snd (logged s)) Downloaded \<and>
     skipped_exists (stats_of s) = count_list (map snd (logged s)) Skipped_exists \<and>
     skipped_logged (stats_of s) = count_list (map snd (logged s)) Skipped_logged \<and>
     failed (stats_of s) = count_list (map snd (logged s)) Failed)"


text \<open>The set of keys that a reload of the download log yields.\<close>

definition on_disk :: "fs \<Rightarrow> string \<Rightarrow> atom set" where
  "on_disk fs local_path =
     (case get_download_log fs local_path of Inr (keys, warned) \<Rightarrow> set keys | Inl e \<Rightarrow> {})"

text \<open>The second filesystem is the first one with some missing directories created.\<close>

definition only_new_dirs :: "fs \<Rightarrow> fs \<Rightarrow> bool" where
  "only_new_dirs fs fs' = (\<forall>q. fs' q = fs q \<or> (fs q = None \<and> fs' q = Some Dir))"

text \<open>Every directory of the first filesystem is a directory of the second.\<close>

definition dirs_kept :: "fs \<Rightarrow> fs \<Rightarrow> bool" where
  "dirs_kept fs fs' = (\<forall>q. fs q = Some Dir \<longrightarrow> fs' q = Some Dir)"

text \<open>A file key: not empty and not ending in the separator.\<close>

definition is_file_key :: "string \<Rightarrow> bool" where
  "is_file_key k = (k \<noteq> [] \<and> last k \<noteq> CHR ''/'')"

text \<open>The set in memory is what a reload of the download log yields.\<close>

definition in_sync :: "string \<Rightarrow> loop_state \<Rightarrow> bool" where
  "in_sync local_path s = (set (downloaded_files s) = on_disk (disk s) local_path)"

text \<open>The keys of the records logged as downloaded or skipped_exists.\<close>

definition recorded :: "(string \<times> classification) list \<Rightarrow> atom set" where
  "recorded log =
     set (map (\<lambda>e. PyStr (fst e))
            (filter (\<lambda>e. snd e = Downloaded \<or> snd e = Skipped_exists) log))"

text \<open>A disk on which every file and every directory lies in a directory.\<close>

definition tree :: "fs \<Rightarrow> bool" where
  "tree fs = (\<forall>q. q \<noteq> [] \<longrightarrow> fs q \<noteq> None \<longrightarrow> lookup fs (butlast q) = Some Dir)"

text \<open>A path without the component \<open>..\<close>.\<close>

definition descending :: "string \<Rightarrow> bool" where
  "descending p = (''..'' \<notin> set (comps p))"

section \<open>Facts about paths\<close>

lemma split_slash_not_Nil: "split_slash p \<noteq> []"
  by (induction p) (auto split: list.splits)

lemma split_slash_append:
  "split_slash (a @ CHR ''/'' # b) = split_slash a @ split_slash b"
  by (induction a) (auto split: list.splits simp: split_slash_not_Nil)

lemma comps_append: "comps (a @ ''/'' @ b) = comps a @ comps b"
  by (simp add: comps_def split_slash_append)

section \<open>Facts about the filesystem operations\<close>

lemma missing_Exception: "is_Exception (missing fs loc)"
  by (simp add: missing_def is_Exception_def)

lemma walk_Exception: "walk fs cur cs = Inl e \<Longrightarrow> is_Exception e"
proof (induction cs arbitrary: cur)
  case Nil
  then show ?case by simp
next
  case (Cons c cs)
  then show ?case
    using missing_Exception [of fs cur]
    by (auto simp: is_Exception_def split: if_splits option.splits node.splits)
qed

lemma resolve_Exception: "resolve fs p = Inl e \<Longrightarrow> is_Exception e"
  by (auto simp: resolve_def path_error_def is_Exception_def
      split: option.splits if_splits dest: walk_Exception)

lemma only_new_dirs_refl: "only_new_dirs fs fs"
  by (simp add: only_new_dirs_def)

lemma only_new_dirs_trans:
  "only_new_dirs fs fs' \<Longrightarrow> only_new_dirs fs' fs'' \<Longrightarrow> only_new_dirs fs fs''"
  unfolding only_new_dirs_def by metis

lemma only_new_dirs_kept: "only_new_dirs fs fs' \<Longrightarrow> dirs_kept fs fs'"
  unfolding only_new_dirs_def dirs_kept_def by (metis option.distinct(1))

lemma dirs_kept_refl: "dirs_kept fs fs"
  by (simp add: dirs_kept_def)

lemma dirs_kept_trans: "dirs_kept fs fs' \<Longrightarrow> dirs_kept fs' fs'' \<Longrightarrow> dirs_kept fs fs''"
  by (simp add: dirs_kept_def)

lemma lookup_dirs_kept:
  "dirs_kept fs fs' \<Longrightarrow> lookup fs loc = Some Dir \<Longrightarrow> lookup fs' loc = Some Dir"
  by (auto simp: dirs_kept_def lookup_def split: if_splits)

lemma walk_dirs_kept:
  "dirs_kept fs fs' \<Longrightarrow> walk fs cur cs = Inr loc \<Longrightarrow> walk fs' cur cs = Inr loc"
proof (induction cs arbitrary: cur)
  case Nil
  then show ?case by simp
next
  case (Cons c cs)
  show ?case
  proof (cases "c = ''.'' \<or> c = ''..''")
    case True
    with Cons.prems(2) have d: "lookup fs cur = Some Dir"
      and w: "walk fs (if c = ''.'' then cur else butlast cur) cs = Inr loc"
      by (auto split: option.splits node.splits)
    from Cons.prems(1) d have "lookup fs' cur = Some Dir" by (rule lookup_dirs_kept)
    moreover from Cons.prems(1) w
    have "walk fs' (if c = ''.'' then cur else butlast cur) cs = Inr loc" by (rule Cons.IH)
    ultimately show ?thesis using True by simp
  next
    case False
    with Cons.prems(2) have n: "\<not> NAME_MAX < length c" and w: "walk fs (cur @ [c]) cs = Inr loc"
      by (auto split: if_splits)
    from Cons.prems(1) w have "walk fs' (cur @ [c]) cs = Inr loc" by (rule Cons.IH)
    with False n show ?thesis by simp
  qed
qed

lemma resolve_dirs_kept:
  "dirs_kept fs fs' \<Longrightarrow> resolve fs p = Inr loc \<Longrightarrow> resolve fs' p = Inr loc"
  by (auto simp: resolve_def split: option.splits dest: walk_dirs_kept)

lemma node_at_dirs_kept:
  "dirs_kept fs fs' \<Longrightarrow> node_at fs q = Some Dir \<Longrightarrow> node_at fs' q = Some Dir"
proof -
  assume a: "dirs_kept fs fs'" and b: "node_at fs q = Some Dir"
  from b obtain loc where w: "walk fs [] q = Inr loc" and l: "lookup fs loc = Some Dir"
    by (auto simp: node_at_def split: sum.splits)
  from a w have "walk fs' [] q = Inr loc" by (rule walk_dirs_kept)
  moreover from a l have "lookup fs' loc = Some Dir" by (rule lookup_dirs_kept)
  ultimately show ?thesis by (simp add: node_at_def)
qed

lemma only_new_dirs_file:
  "only_new_dirs fs fs' \<Longrightarrow> node_at fs q = Some (File x) \<Longrightarrow> node_at fs' q = Some (File x)"
proof -
  assume a: "only_new_dirs fs fs'" and b: "node_at fs q = Some (File x)"
  from b obtain loc where w: "walk fs [] q = Inr loc" and l: "lookup fs loc = Some (File x)"
    by (auto simp: node_at_def split: sum.splits)
  from only_new_dirs_kept [OF a] w have "walk fs' [] q = Inr loc" by (rule walk_dirs_kept)
  moreover from a l have "lookup fs' loc = Some (File x)"
    unfolding only_new_dirs_def lookup_def by (metis option.distinct(1))
  ultimately show ?thesis by (simp add: node_at_def)
qed

text \<open>\<open>mkdirs\<close> only creates directories.\<close>

lemma mkdirs_only_new_dirs: "mkdirs fs cur cs = Inr fs' \<Longrightarrow> only_new_dirs fs fs'"
proof (induction cs arbitrary: fs cur)
  case Nil
  then show ?case by (simp add: only_new_dirs_refl)
next
  case (Cons c cs)
  show ?case
  proof (cases "c = ''.'' \<or> c = ''..'' \<or> fs (cur @ [c]) \<noteq> None")
    case True
    with Cons.prems obtain cur' where "mkdirs fs cur' cs = Inr fs'"
      by (auto split: if_splits option.splits node.splits)
    then show ?thesis by (rule Cons.IH)
  next
    case False
    with Cons.prems have "mkdirs (fs(cur @ [c] \<mapsto> Dir)) (cur @ [c]) cs = Inr fs'"
      by (auto split: if_splits)
    then have "only_new_dirs (fs(cur @ [c] \<mapsto> Dir)) fs'" by (rule Cons.IH)
    moreover have "only_new_dirs fs (fs(cur @ [c] \<mapsto> Dir))"
      using False by (simp add: only_new_dirs_def)
    ultimately show ?thesis using only_new_dirs_trans by blast
  qed
qed

lemma mkdirs_error_only_new_dirs:
  "mkdirs fs cur cs = Inl (e, fs') \<Longrightarrow> only_new_dirs fs fs'"
proof (induction cs arbitrary: fs cur)
  case Nil
  then show ?case by simp
next
  case (Cons c cs)
  show ?case
  proof (cases "c \<noteq> ''.'' \<and> c \<noteq> ''..'' \<and> \<not> NAME_MAX < length c \<and> fs (cur @ [c]) = None")
    case True
    with Cons.prems have "mkdirs (fs(cur @ [c] \<mapsto> Dir)) (cur @ [c]) cs = Inl (e, fs')"
      by simp
    then have "only_new_dirs (fs(cur @ [c] \<mapsto> Dir)) fs'" by (rule Cons.IH)
    moreover have "only_new_dirs fs (fs(cur @ [c] \<mapsto> Dir))"
      using True by (simp add: only_new_dirs_def)
    ultimately show ?thesis using only_new_dirs_trans by blast
  next
    case False
    with Cons.prems have "fs' = fs \<or> (\<exists>cur'. mkdirs fs cur' cs = Inl (e, fs'))"
      by (auto split: if_splits option.splits node.splits)
    then show ?thesis using Cons.IH by (auto simp: only_new_dirs_refl)
  qed
qed

lemma os_makedirs_only_new_dirs: "os_makedirs fs p = Inr fs' \<Longrightarrow> only_new_dirs fs fs'"
  by (auto simp: os_makedirs_def split: option.splits dest: mkdirs_only_new_dirs)

lemma os_makedirs_error_only_new_dirs:
  "os_makedirs fs p = Inl (e, fs') \<Longrightarrow> only_new_dirs fs fs'"
  by (auto simp: os_makedirs_def only_new_dirs_refl split: option.splits
      dest: mkdirs_error_only_new_dirs)

text \<open>After \<open>mkdirs\<close> every prefix of the components leads to a directory.\<close>

lemma mkdirs_makes:
  "lookup fs cur = Some Dir \<Longrightarrow> mkdirs fs cur cs = Inr fs' \<Longrightarrow>
   \<exists>loc. walk fs' cur (take n cs) = Inr loc \<and> lookup fs' loc = Some Dir"
proof (induction cs arbitrary: fs cur n)
  case Nil
  from mkdirs_only_new_dirs [OF Nil(2)] have "dirs_kept fs fs'" by (rule only_new_dirs_kept)
  then have "lookup fs' cur = Some Dir" using Nil(1) by (rule lookup_dirs_kept)
  then show ?case by simp
next
  case (Cons c cs)
  from mkdirs_only_new_dirs [OF Cons.prems(2)] have k: "dirs_kept fs fs'"
    by (rule only_new_dirs_kept)
  from k Cons.prems(1) have here: "lookup fs' cur = Some Dir" by (rule lookup_dirs_kept)
  show ?case
  proof (cases n)
    case 0
    with here show ?thesis by simp
  next
    case (Suc m)
    consider (dot) "c = ''.''" | (dotdot) "c = ''..''" | (name) "c \<noteq> ''.''" "c \<noteq> ''..''"
      by blast
    then show ?thesis
    proof cases
      case dot
      with Cons.prems(2) have "mkdirs fs cur cs = Inr fs'" by simp
      from Cons.IH [OF Cons.prems(1) this, of m] here dot Suc show ?thesis by simp
    next
      case dotdot
      with Cons.prems(2) have d: "lookup fs (butlast cur) = Some Dir"
        and m: "mkdirs fs (butlast cur) cs = Inr fs'"
        by (auto split: option.splits node.splits)
      from Cons.IH [OF d m, of m] here dotdot Suc show ?thesis by simp
    next
      case name
      with Cons.prems(2) have len: "\<not> NAME_MAX < length c" by (auto split: if_splits)
      from name len Cons.prems(2) obtain fsm where
        m: "mkdirs fsm (cur @ [c]) cs = Inr fs'" and d: "fsm (cur @ [c]) = Some Dir"
        by (cases "fs (cur @ [c])") (auto split: node.splits)
      from d have "lookup fsm (cur @ [c]) = Some Dir" by (simp add: lookup_def)
      from Cons.IH [OF this m, of m] name len Suc show ?thesis by simp
    qed
  qed
qed

lemma os_makedirs_makes:
  assumes "os_makedirs fs p = Inr fs'"
  shows "node_at fs' (take n (comps p)) = Some Dir"
proof -
  from assms have "mkdirs fs [] (comps p) = Inr fs'"
    by (auto simp: os_makedirs_def split: option.splits)
  from mkdirs_makes [OF _ this, of n] show ?thesis
    by (auto simp: node_at_def lookup_def)
qed

text \<open>\<open>mkdirs\<close> that has succeeded succeeds again, and then changes nothing, as long as
  the directories are kept.\<close>

lemma mkdirs_again:
  "mkdirs fs cur cs = Inr fs1 \<Longrightarrow> dirs_kept fs1 fs' \<Longrightarrow> mkdirs fs' cur cs = Inr fs'"
proof (induction cs arbitrary: fs cur)
  case Nil
  then show ?case by simp
next
  case (Cons c cs)
  from mkdirs_only_new_dirs [OF Cons.prems(1)] have k: "dirs_kept fs fs1"
    by (rule only_new_dirs_kept)
  consider (dot) "c = ''.''" | (dotdot) "c = ''..''" | (name) "c \<noteq> ''.''" "c \<noteq> ''..''"
    by blast
  then show ?case
  proof cases
    case dot
    with Cons.prems(1) have "mkdirs fs cur cs = Inr fs1" by simp
    from Cons.IH [OF this Cons.prems(2)] dot show ?thesis by simp
  next
    case dotdot
    with Cons.prems(1) have d: "lookup fs (butlast cur) = Some Dir"
      and m: "mkdirs fs (butlast cur) cs = Inr fs1"
      by (auto split: option.splits node.splits)
    from dirs_kept_trans [OF k Cons.prems(2)] d have "lookup fs' (butlast cur) = Some Dir"
      by (rule lookup_dirs_kept)
    with Cons.IH [OF m Cons.prems(2)] dotdot show ?thesis by simp
  next
    case name
    with Cons.prems(1) have len: "\<not> NAME_MAX < length c" by (auto split: if_splits)
    from name len Cons.prems(1) obtain fsm where
      m: "mkdirs fsm (cur @ [c]) cs = Inr fs1" and d: "fsm (cur @ [c]) = Some Dir"
      by (cases "fs (cur @ [c])") (auto split: node.splits)
    from mkdirs_only_new_dirs [OF m] have "dirs_kept fsm fs1" by (rule only_new_dirs_kept)
    with d have "fs1 (cur @ [c]) = Some Dir" by (simp add: dirs_kept_def)
    with Cons.prems(2) have "fs' (cur @ [c]) = Some Dir" by (simp add: dirs_kept_def)
    with Cons.IH [OF m Cons.prems(2)] name len show ?thesis by simp
  qed
qed

lemma os_makedirs_again:
  "os_makedirs fs p = Inr fs1 \<Longrightarrow> dirs_kept fs1 fs' \<Longrightarrow> os_makedirs fs' p = Inr fs'"
  by (auto simp: os_makedirs_def split: option.splits dest: mkdirs_again)

text \<open>A regular file that a prefix of the components leads to makes \<open>mkdirs\<close> raise.\<close>

lemma mkdirs_blocked:
  "walk fs cur (take n cs) = Inr loc \<Longrightarrow> lookup fs loc = Some (File x) \<Longrightarrow>
   lookup fs cur = Some Dir \<Longrightarrow> isl (mkdirs fs cur cs)"
proof (induction cs arbitrary: fs cur n)
  case Nil
  then show ?case by simp
next
  case (Cons c cs)
  show ?case
  proof (cases n)
    case 0
    with Cons.prems show ?thesis by simp
  next
    case (Suc m)
    consider (dot) "c = ''.''" | (dotdot) "c = ''..''" | (name) "c \<noteq> ''.''" "c \<noteq> ''..''"
      by blast
    then show ?thesis
    proof cases
      case dot
      with Cons.prems(1) Suc have "walk fs cur (take m cs) = Inr loc"
        by (auto split: option.splits node.splits)
      from Cons.IH [OF this Cons.prems(2,3)] dot show ?thesis by simp
    next
      case dotdot
      with Cons.prems(1) Suc have w: "walk fs (butlast cur) (take m cs) = Inr loc"
        by (auto split: option.splits node.splits)
      show ?thesis
      proof (cases "lookup fs (butlast cur) = Some Dir")
        case True
        from Cons.IH [OF w Cons.prems(2) True] True dotdot show ?thesis by simp
      next
        case False
        with dotdot show ?thesis by (auto split: option.splits node.splits)
      qed
    next
      case name
      with Cons.prems(1) Suc have len: "\<not> NAME_MAX < length c"
        and w: "walk fs (cur @ [c]) (take m cs) = Inr loc"
        by (auto split: if_splits)
      show ?thesis
      proof (cases "fs (cur @ [c])")
        case None
        let ?fsm = "fs(cur @ [c] \<mapsto> Dir)"
        have o: "only_new_dirs fs ?fsm" using None by (simp add: only_new_dirs_def)
        from only_new_dirs_kept [OF o] w have w': "walk ?fsm (cur @ [c]) (take m cs) = Inr loc"
          by (rule walk_dirs_kept)
        from Cons.prems(2) None have "loc \<noteq> cur @ [c]" by (auto simp: lookup_def)
        with Cons.prems(2) have l': "lookup ?fsm loc = Some (File x)"
          by (auto simp: lookup_def split: if_splits)
        have d': "lookup ?fsm (cur @ [c]) = Some Dir" by (simp add: lookup_def)
        have step: "mkdirs fs cur (c # cs) = mkdirs ?fsm (cur @ [c]) cs"
          using None name len by simp
        show ?thesis unfolding step using w' l' d' by (rule Cons.IH)
      next
        case (Some nd)
        show ?thesis
        proof (cases nd)
          case (File y)
          with Some name len show ?thesis by simp
        next
          case Dir
          with Some have "lookup fs (cur @ [c]) = Some Dir" by (simp add: lookup_def)
          from Cons.IH [OF w Cons.prems(2) this] Some Dir name len show ?thesis by simp
        qed
      qed
    qed
  qed
qed

lemma os_makedirs_blocked:
  assumes "node_at fs (take n (comps p)) = Some (File x)"
  shows "isl (os_makedirs fs p)"
proof (cases "path_error p")
  case (Some e)
  then show ?thesis by (simp add: os_makedirs_def)
next
  case None
  from assms obtain loc where "walk fs [] (take n (comps p)) = Inr loc"
    "lookup fs loc = Some (File x)"
    by (auto simp: node_at_def split: sum.splits)
  then have "isl (mkdirs fs [] (comps p))"
    by (rule mkdirs_blocked) (simp add: lookup_def)
  with None show ?thesis by (simp add: os_makedirs_def)
qed

section \<open>Partitioning the listing\<close>

lemma select_by_last_empty_key:
  "x \<in> set objects \<Longrightarrow> Key x = [] \<Longrightarrow> select_by_last P objects = Inl IndexError"
  by (induction objects) (auto simp: last_char_def split: list.splits sum.splits)

lemma select_by_last_filter:
  "[] \<notin> Key ` set objects \<Longrightarrow>
   select_by_last P objects = Inr (filter (\<lambda>x. P (last (Key x))) objects)"
  by (induction objects) (auto simp: last_char_def split: list.splits sum.splits)

text \<open>
  Claim C10. The partitioning reads the last character of every key, so a listing that
  holds a record with the empty key makes it fail with \<open>IndexError\<close> instead of
  classifying the record.
\<close>

theorem partition_objects_empty_key:
  assumes "x \<in> set objects" and "Key x = []"
  shows "partition_objects objects = Inl IndexError"
  using select_by_last_empty_key [OF assms] by (simp add: partition_objects_def)

theorem partition_objects_empty_key_witness:
  "\<lparr>Key = ''''\<rparr> \<in> set [\<lparr>Key = ''a.txt''\<rparr>, \<lparr>Key = ''''\<rparr>, \<lparr>Key = ''b/''\<rparr>]
   \<and> Key \<lparr>Key = ''''\<rparr> = []
   \<and> partition_objects [\<lparr>Key = ''a.txt''\<rparr>, \<lparr>Key = ''''\<rparr>, \<lparr>Key = ''b/''\<rparr>] = Inl IndexError"
  using partition_objects_empty_key
    [of "\<lparr>Key = ''''\<rparr>" "[\<lparr>Key = ''a.txt''\<rparr>, \<lparr>Key = ''''\<rparr>, \<lparr>Key = ''b/''\<rparr>]"]
  by simp

lemma partition_objects_filter:
  "[] \<notin> Key ` set objects \<Longrightarrow>
   partition_objects objects =
     Inr (filter (\<lambda>x. last (Key x) \<noteq> CHR ''/'') objects,
          filter (\<lambda>x. last (Key x) = CHR ''/'') objects)"
  by (simp add: partition_objects_def select_by_last_filter)

section \<open>Counting the classifications\<close>

lemma process_file_classifies:
  "process_file cl b lp file s = Inr s' \<Longrightarrow>
   \<exists>c keys fs'. s' = classify (Key file) c keys fs' s"
  by (auto simp: process_file_def Let_def split: if_splits sum.splits prod.splits)

lemma classify_simps [simp]:
  "stats_of (classify k c keys fs s) = count c (stats_of s)"
  "logged (classify k c keys fs s) = logged s @ [(k, c)]"
  "downloaded_files (classify k c keys fs s) = keys"
  "disk (classify k c keys fs s) = fs"
  by (simp_all add: classify_def)

lemma count_fields:
  "downloaded (count c st) = downloaded st + (if c = Downloaded then 1 else 0)"
  "skipped_exists (count c st) = skipped_exists st + (if c = Skipped_exists then 1 else 0)"
  "skipped_logged (count c st) = skipped_logged st + (if c = Skipped_logged then 1 else 0)"
  "failed (count c st) = failed st + (if c = Failed then 1 else 0)"
  by (cases c; simp add: count_def)+



lemma count_list_snoc: "count_list (xs @ [x]) y = count_list xs y + (if x = y then 1 else 0)"
  by (induction xs) auto

lemma tallied_classify: "tallied s \<Longrightarrow> tallied (classify k c keys fs s)"
  by (cases c) (simp_all add: tallied_def count_fields count_list_snoc)

lemma download_loop_logged:
  "download_loop cl b lp files s = Inr s' \<Longrightarrow>
   tallied s \<Longrightarrow>
   tallied s' \<and> map fst (logged s') = map fst (logged s) @ map Key files"
proof (induction files arbitrary: s)
  case Nil
  then show ?case by simp
next
  case (Cons f files)
  from Cons.prems(1) obtain s1 where
    s1: "process_file cl b lp f s = Inr s1" and
    rest: "download_loop cl b lp files s1 = Inr s'"
    by (auto split: sum.splits)
  from process_file_classifies [OF s1] obtain c keys fs' where
    c: "s1 = classify (Key f) c keys fs' s" by blast
  have "tallied s1" using c Cons.prems(2) by (simp add: tallied_classify)
  from Cons.IH [OF rest this] c show ?case by simp
qed

lemma count_list_total:
  "count_list cs Downloaded + count_list cs Skipped_logged
   + count_list cs Skipped_exists + count_list cs Failed = length cs"
proof (induction cs)
  case Nil
  then show ?case by simp
next
  case (Cons c cs)
  then show ?case by (cases c) simp_all
qed

text \<open>
  Claim C9. When \<open>download_objects\<close> returns, the four counters sum to the number of
  file records: one message is logged per record, in order, and each counter is the
  number of records with that classification.
\<close>

theorem download_objects_counters:
  assumes "download_objects cl files b lp fs = Inr s"
  shows "downloaded (stats_of s) + skipped_logged (stats_of s)
         + skipped_exists (stats_of s) + failed (stats_of s) = length files
       \<and> map fst (logged s) = map Key files
       \<and> downloaded (stats_of s) = count_list (map snd (logged s)) Downloaded
       \<and> skipped_logged (stats_of s) = count_list (map snd (logged s)) Skipped_logged
       \<and> skipped_exists (stats_of s) = count_list (map snd (logged s)) Skipped_exists
       \<and> failed (stats_of s) = count_list (map snd (logged s)) Failed"
proof -
  from assms obtain keys w where
    loop: "download_loop cl b lp files
             \<lparr>stats_of = zero_stats, downloaded_files = keys, disk = fs, logged = []\<rparr> = Inr s"
    by (auto simp: download_objects_def split: sum.splits prod.splits)
  have "tallied \<lparr>stats_of = zero_stats, downloaded_files = keys, disk = fs, logged = []\<rparr>"
    by (simp add: tallied_def zero_stats_def)
  from download_loop_logged [OF loop this]
  have t: "tallied s" and k: "map fst (logged s) = map Key files" by simp_all
  have "length (map snd (logged s)) = length files"
    using k by (metis length_map)
  with t count_list_total [of "map snd (logged s)"] k show ?thesis
    by (simp add: tallied_def)
qed



section \<open>Facts about the download log\<close>

lemma log_filepath_plain: "log_filepath lp \<noteq> [] \<and> \<not> trailing (log_filepath lp)"
  by (simp add: log_filepath_def trailing_def DOWNLOAD_LOG_FILE_def)

lemma py_set_error: "py_set v = Inl e \<Longrightarrow> e = TypeError"
  by (cases v rule: py_set.cases) (auto split: option.splits)

lemma read_file_Exception: "read_file fs p = Inl e \<Longrightarrow> is_Exception e"
  using missing_Exception
  by (auto simp: read_file_def is_Exception_def
      split: sum.splits option.splits node.splits if_splits dest: resolve_Exception)

lemma read_download_log_Exception:
  "read_download_log fs lp = Inl e \<Longrightarrow> is_Exception e"
  by (auto simp: read_download_log_def is_Exception_def
      split: sum.splits content.splits json.splits option.splits
      dest: py_set_error read_file_Exception)

lemma get_download_log_returns: "\<exists>keys warned. get_download_log fs lp = Inr (keys, warned)"
  by (auto simp: get_download_log_def split: sum.splits dest: read_download_log_Exception)

lemma atoms_of_map_Atom: "atoms_of (map Atom keys) = Some keys"
  by (induction keys) auto

text \<open>A file that has been opened for writing: where it is, and what the disk is after
  the write through the handle.\<close>

lemma open_w_ok:
  assumes "open_w fs p = Inr fs'"
  obtains loc where "resolve fs p = Inr loc" "loc \<noteq> []" "\<not> trailing p"
    "lookup fs loc \<noteq> Some Dir" "fs' = fs(loc \<mapsto> File (Bytes []))"
    "write_open fs' p c = fs(loc \<mapsto> File c)" "resolve (fs(loc \<mapsto> File c)) p = Inr loc"
proof -
  from assms obtain loc where r: "resolve fs p = Inr loc" and t: "\<not> trailing p"
    and d: "lookup fs loc \<noteq> Some Dir" and e: "fs' = fs(loc \<mapsto> File (Bytes []))"
    by (auto simp: open_w_def split: sum.splits option.splits node.splits if_splits)
  from d have ne: "loc \<noteq> []" by (auto simp: lookup_def)
  with d have "fs loc \<noteq> Some Dir" by (simp add: lookup_def)
  then have k: "\<And>c. dirs_kept fs (fs(loc \<mapsto> File c))" by (auto simp: dirs_kept_def)
  from k r have r': "\<And>c. resolve (fs(loc \<mapsto> File c)) p = Inr loc" by (rule resolve_dirs_kept)
  from r' [of "Bytes []"] e have wr: "write_open fs' p c = fs(loc \<mapsto> File c)"
    by (simp add: write_open_def)
  show thesis by (rule that [OF r ne t d e wr r'])
qed

lemma open_w_error: "open_w fs p = Inl (e, fs') \<Longrightarrow> fs' = fs"
  by (auto simp: open_w_def split: sum.splits option.splits node.splits if_splits)

text \<open>A file that holds the saved document is read back as the saved keys.\<close>

lemma get_download_log_saved:
  assumes "resolve fs (log_filepath lp) = Inr loc" "lookup fs loc = Some (File (ledger_doc keys))"
  shows "get_download_log fs lp = Inr (remdups keys, False)"
proof -
  from assms log_filepath_plain [of lp] have "os_path_exists fs (log_filepath lp)"
    by (simp add: os_path_exists_def)
  moreover from assms log_filepath_plain [of lp]
  have "read_file fs (log_filepath lp) = Inr (ledger_doc keys)"
    by (simp add: read_file_def)
  then have "read_download_log fs lp = Inr (remdups keys)"
    by (simp add: read_download_log_def ledger_doc_def atoms_of_map_Atom)
  ultimately show ?thesis by (simp add: get_download_log_def)
qed

lemma save_download_log_on_disk:
  assumes "save_download_log fs lp keys = Inr fs'"
  shows "on_disk fs' lp = set keys"
proof -
  from assms obtain fs1 fs2 where
    o: "open_w fs1 (log_filepath lp) = Inr fs2" and
    w: "fs' = write_open fs2 (log_filepath lp) (ledger_doc keys)"
    by (auto simp: save_download_log_def split: sum.splits)
  from o obtain loc where
    "write_open fs2 (log_filepath lp) (ledger_doc keys) = fs1(loc \<mapsto> File (ledger_doc keys))"
    "resolve (fs1(loc \<mapsto> File (ledger_doc keys))) (log_filepath lp) = Inr loc" "loc \<noteq> []"
    by (rule open_w_ok)
  with w have "resolve fs' (log_filepath lp) = Inr loc"
    "lookup fs' loc = Some (File (ledger_doc keys))"
    by (simp_all add: lookup_def)
  then have "get_download_log fs' lp = Inr (remdups keys, False)"
    by (rule get_download_log_saved)
  then show ?thesis by (simp add: on_disk_def)
qed

lemma save_download_log_ok:
  assumes "save_download_log fs lp keys = Inr fs'"
  shows "dirs_kept fs fs'"
proof -
  from assms obtain fs1 fs2 where
    m: "os_makedirs fs lp = Inr fs1" and
    o: "open_w fs1 (log_filepath lp) = Inr fs2" and
    w: "fs' = write_open fs2 (log_filepath lp) (ledger_doc keys)"
    by (auto simp: save_download_log_def split: sum.splits)
  from o obtain loc where
    e: "write_open fs2 (log_filepath lp) (ledger_doc keys) = fs1(loc \<mapsto> File (ledger_doc keys))"
    and d: "lookup fs1 loc \<noteq> Some Dir" and ne: "loc \<noteq> []"
    by (rule open_w_ok)
  from d ne have "fs1 loc \<noteq> Some Dir" by (simp add: lookup_def)
  then have "dirs_kept fs1 fs'" using w e by (auto simp: dirs_kept_def)
  moreover have "dirs_kept fs fs1"
    using m by (intro only_new_dirs_kept os_makedirs_only_new_dirs)
  ultimately show ?thesis by (blast intro: dirs_kept_trans)
qed

lemma save_download_log_error:
  assumes "save_download_log fs lp keys = Inl (e, fs')"
  shows "only_new_dirs fs fs'"
proof (cases "os_makedirs fs lp")
  case (Inl err)
  with assms have "os_makedirs fs lp = Inl (e, fs')" by (simp add: save_download_log_def)
  then show ?thesis by (rule os_makedirs_error_only_new_dirs)
next
  case (Inr fs1)
  with assms have "open_w fs1 (log_filepath lp) = Inl (e, fs')"
    by (auto simp: save_download_log_def split: sum.splits)
  then have "fs' = fs1" by (rule open_w_error)
  with Inr show ?thesis by (simp add: os_makedirs_only_new_dirs)
qed

section \<open>Loading the download log\<close>

text \<open>
  Claim C5. \<open>get_download_log\<close> never raises. Without a log file it returns the empty
  set and logs nothing; when the log holds a list of strings under
  \<open>"downloaded_files"\<close> it returns exactly those strings; when the path exists and the
  read or the parse fails it logs a warning and returns the empty set.
\<close>

theorem get_download_log_total:
  "(\<exists>keys warned. get_download_log fs lp = Inr (keys, warned))
   \<and> (\<not> os_path_exists fs (log_filepath lp) \<longrightarrow> get_download_log fs lp = Inr ([], False))
   \<and> (read_file fs (log_filepath lp) = Inr (Json (Obj kvs))
        \<and> map_of kvs ''downloaded_files'' = Some (Arr (map (\<lambda>k. Atom (PyStr k)) ks))
      \<longrightarrow> (\<exists>keys. get_download_log fs lp = Inr (keys, False) \<and> set keys = PyStr ` set ks))
   \<and> (os_path_exists fs (log_filepath lp) \<and> read_download_log fs lp = Inl e
      \<longrightarrow> get_download_log fs lp = Inr ([], True))"
proof (intro conjI impI)
  show "\<exists>keys warned. get_download_log fs lp = Inr (keys, warned)"
    by (rule get_download_log_returns)
next
  assume "\<not> os_path_exists fs (log_filepath lp)"
  then show "get_download_log fs lp = Inr ([], False)"
    by (simp add: get_download_log_def)
next
  assume a: "read_file fs (log_filepath lp) = Inr (Json (Obj kvs))
      \<and> map_of kvs ''downloaded_files'' = Some (Arr (map (\<lambda>k. Atom (PyStr k)) ks))"
  have at: "atoms_of (map (\<lambda>k. Atom (PyStr k)) ks) = Some (map PyStr ks)"
    using atoms_of_map_Atom [of "map PyStr ks"] by (simp add: comp_def)
  from a have ex: "os_path_exists fs (log_filepath lp)"
    by (auto simp: read_file_def os_path_exists_def
        split: sum.splits option.splits node.splits if_splits)
  from a at have "read_download_log fs lp = Inr (remdups (map PyStr ks))"
    by (simp add: read_download_log_def)
  with ex have "get_download_log fs lp = Inr (remdups (map PyStr ks), False)"
    by (simp add: get_download_log_def)
  then show "\<exists>keys. get_download_log fs lp = Inr (keys, False) \<and> set keys = PyStr ` set ks"
    by simp
next
  assume a: "os_path_exists fs (log_filepath lp) \<and> read_download_log fs lp = Inl e"
  then have "is_Exception e" using read_download_log_Exception [of fs lp e] by blast
  with a show "get_download_log fs lp = Inr ([], True)"
    by (simp add: get_download_log_def)
qed

lemmas fs_defs =
  os_path_exists_def read_file_def open_w_def write_open_def os_remove_def os_makedirs_def
  os_path_dirname_def node_at_def lookup_def resolve_def path_error_def missing_def
  NAME_MAX_def PATH_MAX_def comps_def trailing_def log_filepath_def DOWNLOAD_LOG_FILE_def
  empty_disk_def

lemmas ledger_defs =
  get_download_log_def read_download_log_def save_download_log_def add_to_download_log_def
  ledger_doc_def is_Exception_def

theorem get_download_log_total_witness:
  "get_download_log empty_disk ''out'' = Inr ([], False)
   \<and> get_download_log
        (empty_disk([''out''] \<mapsto> Dir,
                    [''out'', ''download_log.json''] \<mapsto>
                      File (Json (Obj [(''downloaded_files'', Arr [Atom (PyStr ''a''), Atom (PyStr ''b'')])]))))
        ''out'' = Inr ([PyStr ''a'', PyStr ''b''], False)
   \<and> get_download_log
        (empty_disk([''out''] \<mapsto> Dir, [''out'', ''download_log.json''] \<mapsto> File (Bytes ''{ downlo'')))
        ''out'' = Inr ([], True)"
proof -
  let ?good = "empty_disk([''out''] \<mapsto> Dir,
                    [''out'', ''download_log.json''] \<mapsto>
                      File (Json (Obj [(''downloaded_files'', Arr [Atom (PyStr ''a''), Atom (PyStr ''b'')])])))"
  let ?bad = "empty_disk([''out''] \<mapsto> Dir, [''out'', ''download_log.json''] \<mapsto> File (Bytes ''{ downlo''))"
  have 1: "\<not> os_path_exists empty_disk (log_filepath ''out'')"
    by (simp add: fs_defs)
  have 2: "read_file ?good (log_filepath ''out'')
             = Inr (Json (Obj [(''downloaded_files'', Arr [Atom (PyStr ''a''), Atom (PyStr ''b'')])]))
         \<and> map_of [(''downloaded_files'', Arr [Atom (PyStr ''a''), Atom (PyStr ''b'')])] ''downloaded_files''
             = Some (Arr (map (\<lambda>k. Atom (PyStr k)) [''a'', ''b'']))"
    by (simp add: fs_defs)
  have 3: "os_path_exists ?bad (log_filepath ''out'')
         \<and> read_download_log ?bad ''out'' = Inl JSONDecodeError"
    by (simp add: fs_defs ledger_defs)
  from get_download_log_total [of empty_disk "''out''"] 1
  have a: "get_download_log empty_disk ''out'' = Inr ([], False)" by blast
  from get_download_log_total [of ?good "''out''" "[(''downloaded_files'', Arr [Atom (PyStr ''a''), Atom (PyStr ''b'')])]" "[''a'', ''b'']"] 2
  obtain keys where k: "get_download_log ?good ''out'' = Inr (keys, False)"
    "set keys = PyStr ` set [''a'', ''b'']" by blast
  have "get_download_log ?good ''out'' = Inr ([PyStr ''a'', PyStr ''b''], False)"
    by (simp add: fs_defs ledger_defs)
  moreover from get_download_log_total [of ?bad "''out''" _ _ JSONDecodeError] 3
  have "get_download_log ?bad ''out'' = Inr ([], True)" by blast
  ultimately show ?thesis using a by simp
qed

lemmas run_defs =
  download_objects_def process_file_def attempt_download_def classify_def count_def
  zero_stats_def demo_client_def completes_def breaks_def Let_def

theorem download_objects_counters_witness:
  "map_sum fst (\<lambda>s. (stats_of s, logged s))
     (download_objects
        (demo_client [] (\<lambda>k. if k = ''docs/b.txt'' then breaks k else completes k))
        [\<lparr>Key = ''a.txt''\<rparr>, \<lparr>Key = ''docs/b.txt''\<rparr>, \<lparr>Key = ''a.txt''\<rparr>]
        ''bucket'' ''out'' empty_disk)
   = Inr (\<lparr>downloaded = 1, skipped_exists = 0, skipped_logged = 1, failed = 1\<rparr>,
          [(''a.txt'', Downloaded), (''docs/b.txt'', Failed), (''a.txt'', Skipped_logged)])
   \<and> (1::nat) + 1 + 0 + 1 = length [\<lparr>Key = ''a.txt''\<rparr>, \<lparr>Key = ''docs/b.txt''\<rparr>, \<lparr>Key = ''a.txt''\<rparr>]"
proof -
  let ?run = "download_objects
        (demo_client [] (\<lambda>k. if k = ''docs/b.txt'' then breaks k else completes k))
        [\<lparr>Key = ''a.txt''\<rparr>, \<lparr>Key = ''docs/b.txt''\<rparr>, \<lparr>Key = ''a.txt''\<rparr>]
        ''bucket'' ''out'' empty_disk"
  have v: "map_sum fst (\<lambda>s. (stats_of s, logged s)) ?run
     = Inr (\<lparr>downloaded = 1, skipped_exists = 0, skipped_logged = 1, failed = 1\<rparr>,
          [(''a.txt'', Downloaded), (''docs/b.txt'', Failed), (''a.txt'', Skipped_logged)])"
    by (simp add: run_defs fs_defs ledger_defs)
  then obtain s where s: "?run = Inr s" by (cases ?run) auto
  from download_objects_counters [OF s] v s show ?thesis by simp
qed

section \<open>Facts about the steps of the download loop\<close>

lemma os_remove_ok:
  assumes "os_remove fs p = Inr fs'"
  obtains loc c where "resolve fs p = Inr loc" "lookup fs loc = Some (File c)"
    "fs' = fs(loc := None)" "dirs_kept fs fs'"
proof -
  from assms obtain loc c where r: "resolve fs p = Inr loc" and l: "lookup fs loc = Some (File c)"
    and e: "fs' = fs(loc := None)"
    by (auto simp: os_remove_def split: sum.splits option.splits node.splits if_splits)
  from l have "fs loc \<noteq> Some Dir" by (auto simp: lookup_def split: if_splits)
  with e have "dirs_kept fs fs'" by (auto simp: dirs_kept_def)
  with r l e show thesis by (rule that)
qed

text \<open>The attempt that returns has opened the target, completed the transfer and saved
  the download log with the key.\<close>

lemma attempt_download_ok:
  assumes "attempt_download cl b lp k mem fs1 = (keys, Inr fs2)"
  shows "keys = List.insert (PyStr k) mem \<and> on_disk fs2 lp = set keys \<and> dirs_kept fs1 fs2
         \<and> (\<exists>x. download_fileobj cl b k = Completed x)"
proof -
  let ?p = "lp @ ''/'' @ k"
  from assms obtain fso x where
    o: "open_w fs1 ?p = Inr fso" and c: "download_fileobj cl b k = Completed x" and
    a: "add_to_download_log (write_open fso ?p x) lp k mem = (keys, Inr fs2)"
    by (auto simp: attempt_download_def Let_def split: sum.splits transfer.splits)
  from a have keys: "keys = List.insert (PyStr k) mem"
    and sv: "save_download_log (write_open fso ?p x) lp keys = Inr fs2"
    by (auto simp: add_to_download_log_def Let_def)
  from o obtain loc where
    w: "write_open fso ?p x = fs1(loc \<mapsto> File x)" and d: "lookup fs1 loc \<noteq> Some Dir"
    and ne: "loc \<noteq> []"
    by (rule open_w_ok)
  from d ne have "fs1 loc \<noteq> Some Dir" by (simp add: lookup_def)
  then have "dirs_kept fs1 (write_open fso ?p x)" using w by (auto simp: dirs_kept_def)
  moreover from sv have "dirs_kept (write_open fso ?p x) fs2" by (rule save_download_log_ok)
  ultimately have "dirs_kept fs1 fs2" by (rule dirs_kept_trans)
  with keys save_download_log_on_disk [OF sv] c show ?thesis by blast
qed

lemma attempt_download_error:
  assumes "attempt_download cl b lp k mem fs1 = (keys, Inl (e, fs2))"
  shows "dirs_kept fs1 fs2"
proof -
  let ?p = "lp @ ''/'' @ k"
  show ?thesis
  proof (cases "open_w fs1 ?p")
    case (Inl err)
    with assms have "open_w fs1 ?p = Inl (e, fs2)"
      by (simp add: attempt_download_def Let_def)
    then have "fs2 = fs1" by (rule open_w_error)
    then show ?thesis by (simp add: dirs_kept_refl)
  next
    case (Inr fso)
    show ?thesis
    proof (cases "download_fileobj cl b k")
      case (Completed x)
      from Inr obtain loc where
        w: "write_open fso ?p x = fs1(loc \<mapsto> File x)" and d: "lookup fs1 loc \<noteq> Some Dir"
        and ne: "loc \<noteq> []"
        by (rule open_w_ok)
      from d ne have "fs1 loc \<noteq> Some Dir" by (simp add: lookup_def)
      then have k1: "dirs_kept fs1 (write_open fso ?p x)" using w by (auto simp: dirs_kept_def)
      from assms Inr Completed
      have "save_download_log (write_open fso ?p x) lp (List.insert (PyStr k) mem) = Inl (e, fs2)"
        by (auto simp: attempt_download_def add_to_download_log_def Let_def)
      then have "only_new_dirs (write_open fso ?p x) fs2" by (rule save_download_log_error)
      then have "dirs_kept (write_open fso ?p x) fs2" by (rule only_new_dirs_kept)
      with k1 show ?thesis by (rule dirs_kept_trans)
    next
      case (Aborted x err)
      from Inr obtain loc where
        w: "write_open fso ?p x = fs1(loc \<mapsto> File x)" and d: "lookup fs1 loc \<noteq> Some Dir"
        and ne: "loc \<noteq> []"
        by (rule open_w_ok)
      from d ne have "fs1 loc \<noteq> Some Dir" by (simp add: lookup_def)
      then have k1: "dirs_kept fs1 (write_open fso ?p x)" using w by (auto simp: dirs_kept_def)
      from assms Inr Aborted have "fs2 = write_open fso ?p x"
        by (simp add: attempt_download_def Let_def)
      with k1 show ?thesis by simp
    qed
  qed
qed

text \<open>The ways in which an iteration of the loop returns.\<close>

lemma process_file_cases:
  assumes "process_file cl b lp file s = Inr s'"
  obtains
    (Logged) "PyStr (Key file) \<in> set (downloaded_files s)"
      "s' = classify (Key file) Skipped_logged (downloaded_files s) (disk s) s"
  | (Exists) fs' where
      "PyStr (Key file) \<notin> set (downloaded_files s)"
      "os_path_exists (disk s) (lp @ ''/'' @ Key file)"
      "save_download_log (disk s) lp (List.insert (PyStr (Key file)) (downloaded_files s)) = Inr fs'"
      "s' = classify (Key file) Skipped_exists
             (List.insert (PyStr (Key file)) (downloaded_files s)) fs' s"
  | (Got) fs1 keys fs2 where
      "PyStr (Key file) \<notin> set (downloaded_files s)"
      "\<not> os_path_exists (disk s) (lp @ ''/'' @ Key file)"
      "os_makedirs (disk s) (os_path_dirname (lp @ ''/'' @ Key file)) = Inr fs1"
      "attempt_download cl b lp (Key file) (downloaded_files s) fs1 = (keys, Inr fs2)"
      "s' = classify (Key file) Downloaded keys fs2 s"
  | (Lost) fs1 keys e fs2 fs3 where
      "PyStr (Key file) \<notin> set (downloaded_files s)"
      "\<not> os_path_exists (disk s) (lp @ ''/'' @ Key file)"
      "os_makedirs (disk s) (os_path_dirname (lp @ ''/'' @ Key file)) = Inr fs1"
      "attempt_download cl b lp (Key file) (downloaded_files s) fs1 = (keys, Inl (e, fs2))"
      "is_Exception e"
      "(if os_path_exists fs2 (lp @ ''/'' @ Key file)
        then os_remove fs2 (lp @ ''/'' @ Key file) else Inr fs2) = Inr fs3"
      "s' = classify (Key file) Failed keys fs3 s"
proof (cases "PyStr (Key file) \<in> set (downloaded_files s)")
  case True
  with assms have "s' = classify (Key file) Skipped_logged (downloaded_files s) (disk s) s"
    by (simp add: process_file_def Let_def)
  with True show thesis by (rule Logged)
next
  case notin: False
  show thesis
  proof (cases "os_path_exists (disk s) (lp @ ''/'' @ Key file)")
    case True
    with notin assms obtain fs' where
      "save_download_log (disk s) lp (List.insert (PyStr (Key file)) (downloaded_files s)) = Inr fs'"
      "s' = classify (Key file) Skipped_exists
             (List.insert (PyStr (Key file)) (downloaded_files s)) fs' s"
      unfolding process_file_def Let_def add_to_download_log_def
      by (auto split: sum.splits)
    with notin True show thesis by (rule Exists)
  next
    case nex: False
    from notin nex assms obtain fs1 where
      mk: "os_makedirs (disk s) (os_path_dirname (lp @ ''/'' @ Key file)) = Inr fs1"
      unfolding process_file_def Let_def by (auto split: sum.splits)
    obtain keys r where at: "attempt_download cl b lp (Key file) (downloaded_files s) fs1 = (keys, r)"
      by (cases "attempt_download cl b lp (Key file) (downloaded_files s) fs1") auto
    show thesis
    proof (cases r)
      case (Inr fs2)
      with notin nex mk at assms have "s' = classify (Key file) Downloaded keys fs2 s"
        unfolding process_file_def Let_def by simp
      with notin nex mk at Inr show thesis by (intro Got) simp_all
    next
      case (Inl err)
      obtain e fs2 where err: "err = (e, fs2)" by (cases err) auto
      from notin nex mk at Inl err assms have
        ex: "is_Exception e" and
        h: "(if os_path_exists fs2 (lp @ ''/'' @ Key file)
             then (case os_remove fs2 (lp @ ''/'' @ Key file) of
                     Inl err \<Rightarrow> Inl err
                   | Inr fs3 \<Rightarrow> Inr (classify (Key file) Failed keys fs3 s))
             else Inr (classify (Key file) Failed keys fs2 s)) = Inr s'"
        unfolding process_file_def Let_def by (auto split: if_splits)
      from h obtain fs3 where
        "(if os_path_exists fs2 (lp @ ''/'' @ Key file)
          then os_remove fs2 (lp @ ''/'' @ Key file) else Inr fs2) = Inr fs3"
        "s' = classify (Key file) Failed keys fs3 s"
        by (auto split: if_splits sum.splits)
      with notin nex mk at Inl err ex show thesis by (intro Lost) simp_all
    qed
  qed
qed

lemma process_file_dirs_kept:
  assumes "process_file cl b lp file s = Inr s'"
  shows "dirs_kept (disk s) (disk s')"
  using assms
proof (cases rule: process_file_cases)
  case Logged
  then show ?thesis by (simp add: dirs_kept_refl)
next
  case (Exists fs')
  from save_download_log_ok [OF Exists(3)] Exists(4) show ?thesis by simp
next
  case (Got fs1 keys fs2)
  have "dirs_kept (disk s) fs1"
    using Got(3) by (intro only_new_dirs_kept os_makedirs_only_new_dirs)
  moreover from attempt_download_ok [OF Got(4)] have "dirs_kept fs1 fs2" by simp
  ultimately have "dirs_kept (disk s) fs2" by (rule dirs_kept_trans)
  with Got(5) show ?thesis by simp
next
  case (Lost fs1 keys e fs2 fs3)
  have "dirs_kept (disk s) fs1"
    using Lost(3) by (intro only_new_dirs_kept os_makedirs_only_new_dirs)
  moreover from Lost(4) have "dirs_kept fs1 fs2" by (rule attempt_download_error)
  moreover have "dirs_kept fs2 fs3"
  proof (cases "os_path_exists fs2 (lp @ ''/'' @ Key file)")
    case True
    with Lost(6) have "os_remove fs2 (lp @ ''/'' @ Key file) = Inr fs3" by simp
    then show ?thesis by (rule os_remove_ok)
  next
    case False
    with Lost(6) show ?thesis by (simp add: dirs_kept_refl)
  qed
  ultimately have "dirs_kept (disk s) fs3" by (blast intro: dirs_kept_trans)
  with Lost(7) show ?thesis by simp
qed

lemma download_loop_dirs_kept:
  "download_loop cl b lp files s = Inr s' \<Longrightarrow> dirs_kept (disk s) (disk s')"
proof (induction files arbitrary: s)
  case Nil
  then show ?case by (simp add: dirs_kept_refl)
next
  case (Cons f files)
  from Cons.prems obtain s1 where
    s1: "process_file cl b lp f s = Inr s1" and
    rest: "download_loop cl b lp files s1 = Inr s'"
    by (auto split: sum.splits)
  from process_file_dirs_kept [OF s1] Cons.IH [OF rest] show ?case
    by (rule dirs_kept_trans)
qed

section \<open>Creating the directories\<close>

lemma create_each_ok:
  "create_each ds lp fs = Inr fs' \<Longrightarrow>
   only_new_dirs fs fs'
   \<and> (\<forall>d\<in>set ds. \<forall>n. node_at fs' (take n (comps (lp @ ''/'' @ Key d))) = Some Dir)"
proof (induction ds arbitrary: fs)
  case Nil
  then show ?case by (simp add: only_new_dirs_refl)
next
  case (Cons d ds)
  from Cons.prems obtain fs1 where
    mk: "os_makedirs fs (lp @ ''/'' @ Key d) = Inr fs1" and
    rest: "create_each ds lp fs1 = Inr fs'"
    by (auto split: sum.splits)
  from Cons.IH [OF rest] have
    d1: "only_new_dirs fs1 fs'" and
    ih: "\<forall>d\<in>set ds. \<forall>n. node_at fs' (take n (comps (lp @ ''/'' @ Key d))) = Some Dir"
    by blast+
  have d0: "only_new_dirs fs fs1" using mk by (rule os_makedirs_only_new_dirs)
  have "\<And>n. node_at fs' (take n (comps (lp @ ''/'' @ Key d))) = Some Dir"
    using os_makedirs_makes [OF mk] only_new_dirs_kept [OF d1]
    by (rule node_at_dirs_kept [rotated])
  with ih d0 d1 show ?case by (auto intro: only_new_dirs_trans)
qed

lemma create_each_again:
  "create_each ds lp fs = Inr fs1 \<Longrightarrow> dirs_kept fs1 fs' \<Longrightarrow> create_each ds lp fs' = Inr fs'"
proof (induction ds arbitrary: fs)
  case Nil
  then show ?case by simp
next
  case (Cons d ds)
  from Cons.prems(1) obtain fs0 where
    mk: "os_makedirs fs (lp @ ''/'' @ Key d) = Inr fs0" and
    rest: "create_each ds lp fs0 = Inr fs1"
    by (auto split: sum.splits)
  from create_each_ok [OF rest] have "dirs_kept fs0 fs1" by (simp add: only_new_dirs_kept)
  from this Cons.prems(2) have "dirs_kept fs0 fs'" by (rule dirs_kept_trans)
  with mk have "os_makedirs fs' (lp @ ''/'' @ Key d) = Inr fs'" by (rule os_makedirs_again)
  moreover from rest Cons.prems(2) have "create_each ds lp fs' = Inr fs'" by (rule Cons.IH)
  ultimately show ?case by simp
qed

lemma create_each_blocked:
  "d \<in> set ds \<Longrightarrow> node_at fs (take n (comps (lp @ ''/'' @ Key d))) = Some (File x) \<Longrightarrow>
   isl (create_each ds lp fs)"
proof (induction ds arbitrary: fs)
  case Nil
  then show ?case by simp
next
  case (Cons d' ds)
  show ?case
  proof (cases "os_makedirs fs (lp @ ''/'' @ Key d')")
    case (Inl err)
    then show ?thesis by simp
  next
    case (Inr fs1)
    have "d \<noteq> d'"
    proof
      assume "d = d'"
      with Cons.prems(2) have "isl (os_makedirs fs (lp @ ''/'' @ Key d'))"
        by (simp add: os_makedirs_blocked)
      with Inr show False by simp
    qed
    with Cons.prems(1) have m: "d \<in> set ds" by simp
    have "only_new_dirs fs fs1" using Inr by (rule os_makedirs_only_new_dirs)
    then have "node_at fs1 (take n (comps (lp @ ''/'' @ Key d))) = Some (File x)"
      using Cons.prems(2) by (rule only_new_dirs_file)
    with m have "isl (create_each ds lp fs1)" by (rule Cons.IH)
    with Inr show ?thesis by simp
  qed
qed

text \<open>
  Claim C8. When \<open>create_directories\<close> returns, the root path and, for every
  directory marker, the path under the root with all its intermediate segments are
  directories; nothing else on the disk has changed; and running it again on the
  result changes nothing and raises nothing. An error of \<open>os.makedirs\<close> is not
  swallowed: the error of the root is the error of the call, and a regular file in
  the way of a marker makes the call raise.
\<close>

theorem create_directories_materializes:
  "(create_directories ds lp fs = Inr fs' \<longrightarrow>
      os_path_exists fs' lp \<and> node_at fs' (comps lp) = Some Dir
      \<and> (\<forall>d\<in>set ds. \<forall>n. node_at fs' (take n (comps (lp @ ''/'' @ Key d))) = Some Dir)
      \<and> only_new_dirs fs fs'
      \<and> create_directories ds lp fs' = Inr fs')
   \<and> (os_makedirs fs lp = Inl err \<longrightarrow> create_directories ds lp fs = Inl err)
   \<and> (d \<in> set ds \<and> node_at fs (take n (comps (lp @ ''/'' @ Key d))) = Some (File x) \<longrightarrow>
        isl (create_directories ds lp fs))"
proof (intro conjI)
  show "create_directories ds lp fs = Inr fs' \<longrightarrow>
      os_path_exists fs' lp \<and> node_at fs' (comps lp) = Some Dir
      \<and> (\<forall>d\<in>set ds. \<forall>n. node_at fs' (take n (comps (lp @ ''/'' @ Key d))) = Some Dir)
      \<and> only_new_dirs fs fs'
      \<and> create_directories ds lp fs' = Inr fs'"
  proof
    assume a: "create_directories ds lp fs = Inr fs'"
    then obtain fs1 where
      mk: "os_makedirs fs lp = Inr fs1" and each: "create_each ds lp fs1 = Inr fs'"
      by (auto simp: create_directories_def split: sum.splits)
    from create_each_ok [OF each] have
      d1: "only_new_dirs fs1 fs'" and
      ds: "\<forall>d\<in>set ds. \<forall>n. node_at fs' (take n (comps (lp @ ''/'' @ Key d))) = Some Dir"
      by blast+
    have d0: "only_new_dirs fs fs1" using mk by (rule os_makedirs_only_new_dirs)
    have ne: "path_error lp = None" using mk by (auto simp: os_makedirs_def split: option.splits)
    have root: "\<And>n. node_at fs' (take n (comps lp)) = Some Dir"
      using os_makedirs_makes [OF mk] only_new_dirs_kept [OF d1]
      by (rule node_at_dirs_kept [rotated])
    from root [of "length (comps lp)"] have r: "node_at fs' (comps lp) = Some Dir" by simp
    with ne have ex: "os_path_exists fs' lp"
      by (auto simp: os_path_exists_def resolve_def node_at_def split: sum.splits)
    have "os_makedirs fs' lp = Inr fs'"
      using mk only_new_dirs_kept [OF d1] by (rule os_makedirs_again)
    moreover have "create_each ds lp fs' = Inr fs'"
      using each dirs_kept_refl by (rule create_each_again)
    ultimately have again: "create_directories ds lp fs' = Inr fs'"
      by (simp add: create_directories_def)
    from d0 d1 have "only_new_dirs fs fs'" by (rule only_new_dirs_trans)
    with ex r ds again show "os_path_exists fs' lp \<and> node_at fs' (comps lp) = Some Dir
      \<and> (\<forall>d\<in>set ds. \<forall>n. node_at fs' (take n (comps (lp @ ''/'' @ Key d))) = Some Dir)
      \<and> only_new_dirs fs fs'
      \<and> create_directories ds lp fs' = Inr fs'" by blast
  qed
next
  show "os_makedirs fs lp = Inl err \<longrightarrow> create_directories ds lp fs = Inl err"
    by (simp add: create_directories_def)
next
  show "d \<in> set ds \<and> node_at fs (take n (comps (lp @ ''/'' @ Key d))) = Some (File x) \<longrightarrow>
        isl (create_directories ds lp fs)"
  proof
    assume a: "d \<in> set ds \<and> node_at fs (take n (comps (lp @ ''/'' @ Key d))) = Some (File x)"
    show "isl (create_directories ds lp fs)"
    proof (cases "os_makedirs fs lp")
      case (Inl e)
      then show ?thesis by (simp add: create_directories_def)
    next
      case (Inr fs1)
      then have "only_new_dirs fs fs1" by (rule os_makedirs_only_new_dirs)
      moreover from a have "node_at fs (take n (comps (lp @ ''/'' @ Key d))) = Some (File x)" ..
      ultimately have "node_at fs1 (take n (comps (lp @ ''/'' @ Key d))) = Some (File x)"
        by (rule only_new_dirs_file)
      moreover from a have "d \<in> set ds" ..
      ultimately have "isl (create_each ds lp fs1)" by (rule create_each_blocked [rotated])
      with Inr show ?thesis by (simp add: create_directories_def)
    qed
  qed
qed

theorem create_directories_materializes_witness:
  "create_directories [\<lparr>Key = ''docs/img/''\<rparr>, \<lparr>Key = ''docs/''\<rparr>] ''out'' empty_disk
     = Inr (empty_disk([''out''] \<mapsto> Dir, [''out'', ''docs''] \<mapsto> Dir,
                       [''out'', ''docs'', ''img''] \<mapsto> Dir))
   \<and> create_directories [\<lparr>Key = ''docs/img/''\<rparr>, \<lparr>Key = ''docs/''\<rparr>] ''out''
        (empty_disk([''out''] \<mapsto> Dir, [''out'', ''docs''] \<mapsto> Dir,
                    [''out'', ''docs'', ''img''] \<mapsto> Dir))
     = Inr (empty_disk([''out''] \<mapsto> Dir, [''out'', ''docs''] \<mapsto> Dir,
                       [''out'', ''docs'', ''img''] \<mapsto> Dir))
   \<and> os_makedirs (empty_disk([''out''] \<mapsto> File (Bytes ''x''))) ''out''
     = Inl (FileExistsError, empty_disk([''out''] \<mapsto> File (Bytes ''x'')))
   \<and> create_directories [\<lparr>Key = ''docs/''\<rparr>] ''out'' (empty_disk([''out''] \<mapsto> File (Bytes ''x'')))
     = Inl (FileExistsError, empty_disk([''out''] \<mapsto> File (Bytes ''x'')))
   \<and> \<lparr>Key = ''docs/img/''\<rparr> \<in> set [\<lparr>Key = ''docs/img/''\<rparr>]
   \<and> node_at (empty_disk([''out''] \<mapsto> Dir, [''out'', ''docs''] \<mapsto> File (Bytes ''x'')))
        (take 2 (comps (''out'' @ ''/'' @ Key \<lparr>Key = ''docs/img/''\<rparr>))) = Some (File (Bytes ''x''))
   \<and> isl (create_directories [\<lparr>Key = ''docs/img/''\<rparr>] ''out''
             (empty_disk([''out''] \<mapsto> Dir, [''out'', ''docs''] \<mapsto> File (Bytes ''x''))))"
proof -
  let ?ds = "[\<lparr>Key = ''docs/img/''\<rparr>, \<lparr>Key = ''docs/''\<rparr>]"
  let ?fs' = "empty_disk([''out''] \<mapsto> Dir, [''out'', ''docs''] \<mapsto> Dir,
                       [''out'', ''docs'', ''img''] \<mapsto> Dir)"
  let ?bad = "empty_disk([''out''] \<mapsto> File (Bytes ''x''))"
  let ?bad2 = "empty_disk([''out''] \<mapsto> Dir, [''out'', ''docs''] \<mapsto> File (Bytes ''x''))"
  have 1: "create_directories ?ds ''out'' empty_disk = Inr ?fs'"
    by (simp add: create_directories_def fs_defs)
  have 2: "os_makedirs ?bad ''out'' = Inl (FileExistsError, ?bad)"
    by (simp add: fs_defs)
  have 3: "\<lparr>Key = ''docs/img/''\<rparr> \<in> set [\<lparr>Key = ''docs/img/''\<rparr>]
    \<and> node_at ?bad2 (take 2 (comps (''out'' @ ''/'' @ Key \<lparr>Key = ''docs/img/''\<rparr>)))
        = Some (File (Bytes ''x''))"
    by (simp add: fs_defs)
  from create_directories_materializes [where ds = ?ds and lp = "''out''" and fs = empty_disk
      and fs' = ?fs'] 1
  have a: "create_directories ?ds ''out'' ?fs' = Inr ?fs'" by blast
  from create_directories_materializes [where ds = "[\<lparr>Key = ''docs/''\<rparr>]" and lp = "''out''"
      and fs = ?bad and err = "(FileExistsError, ?bad)"] 2
  have b: "create_directories [\<lparr>Key = ''docs/''\<rparr>] ''out'' ?bad = Inl (FileExistsError, ?bad)"
    by blast
  from create_directories_materializes [where ds = "[\<lparr>Key = ''docs/img/''\<rparr>]"
      and lp = "''out''" and fs = ?bad2 and d = "\<lparr>Key = ''docs/img/''\<rparr>" and n = 2
      and x = "Bytes ''x''"] 3
  have c: "isl (create_directories [\<lparr>Key = ''docs/img/''\<rparr>] ''out'' ?bad2)" by blast
  from 1 2 3 a b c show ?thesis by blast
qed

section \<open>Listing the bucket\<close>

lemma list_loop_error:
  assumes "(case tok of
              None \<Rightarrow> list_objects_v2 cl b None
            | Some t \<Rightarrow> if t \<noteq> [] then list_objects_v2 cl b (Some t)
                        else list_objects_v2 cl b None) = Inl e"
  shows "list_loop cl b tok acc = Some (Inl e)"
  by (subst list_loop.simps) (simp add: assms)

lemma list_loop_paged:
  "list_loop (paged_client pages) b (if i = 0 then None else Some (replicate i CHR ''t'')) acc
     = Some (Inr (acc @ concat (drop i pages)))"
proof (induction "length pages - i" arbitrary: i acc rule: less_induct)
  case less
  let ?tok = "if i = 0 then None else Some (replicate i CHR ''t'')"
  have idx: "page_index ?tok = i" by (simp add: page_index_def)
  have req: "(case ?tok of
              None \<Rightarrow> list_objects_v2 (paged_client pages) b None
            | Some t \<Rightarrow> if t \<noteq> [] then list_objects_v2 (paged_client pages) b (Some t)
                        else list_objects_v2 (paged_client pages) b None)
        = list_objects_v2 (paged_client pages) b ?tok"
    by simp
  have resp: "list_objects_v2 (paged_client pages) b ?tok =
      Inr \<lparr>Contents = (if i < length pages then Some (pages ! i) else None),
           IsTruncated = (Suc i < length pages),
           NextContinuationToken =
             (if Suc i < length pages then Some (replicate (Suc i) CHR ''t'') else None)\<rparr>"
    unfolding paged_client_def by (simp only: client.simps idx)
  show ?case
  proof (cases "Suc i < length pages")
    case True
    have "list_loop (paged_client pages) b ?tok acc
        = list_loop (paged_client pages) b (Some (replicate (Suc i) CHR ''t'')) (acc @ pages ! i)"
      by (subst list_loop.simps) (simp only: req resp, simp add: True Suc_lessD)
    also have "\<dots> = list_loop (paged_client pages) b
                     (if Suc i = 0 then None else Some (replicate (Suc i) CHR ''t''))
                     (acc @ pages ! i)" by simp
    also have "\<dots> = Some (Inr ((acc @ pages ! i) @ concat (drop (Suc i) pages)))"
      by (rule less) (use True in simp)
    also have "(acc @ pages ! i) @ concat (drop (Suc i) pages) = acc @ concat (drop i pages)"
      using True by (simp add: Cons_nth_drop_Suc [symmetric] Suc_lessD)
    finally show ?thesis .
  next
    case False
    show ?thesis
    proof (cases "i < length pages")
      case True
      with False have last: "drop i pages = [pages ! i]"
        by (metis Cons_nth_drop_Suc drop_all not_less)
      have "list_loop (paged_client pages) b ?tok acc = Some (Inr (acc @ pages ! i))"
        by (subst list_loop.simps) (simp only: req resp, simp add: True False)
      with last show ?thesis by simp
    next
      case past: False
      have "list_loop (paged_client pages) b ?tok acc = Some (Inr acc)"
        by (subst list_loop.simps) (simp only: req resp, simp add: past False)
      with past show ?thesis by simp
    qed
  qed
qed

text \<open>
  Claim C6. Against a service that serves the listing in pages, following the
  continuation tokens, \<open>list_objects_in_bucket\<close> terminates and returns the pages'
  records concatenated in listing order, each record once and none left out; with three
  pages of 1000 records these are 3000 records. An error of a list request, on the
  first page or on a later one, is the result of the call.
\<close>

theorem list_objects_in_bucket_paged:
  "list_objects_in_bucket (paged_client pages) b = Some (Inr (concat pages))
   \<and> (length pages = 3 \<and> (\<forall>page\<in>set pages. length page = 1000) \<longrightarrow>
        (\<exists>objects. list_objects_in_bucket (paged_client pages) b = Some (Inr objects)
           \<and> length objects = 3000 \<and> objects = pages ! 0 @ pages ! 1 @ pages ! 2))
   \<and> (list_objects_v2 cl b None = Inl e \<longrightarrow> list_objects_in_bucket cl b = Some (Inl e))
   \<and> (t \<noteq> [] \<and> list_objects_v2 cl b (Some t) = Inl e \<longrightarrow>
        list_loop cl b (Some t) acc = Some (Inl e))"
proof (intro conjI impI)
  show all: "list_objects_in_bucket (paged_client pages) b = Some (Inr (concat pages))"
    using list_loop_paged [of pages b 0 "[]"] by (simp add: list_objects_in_bucket_def)
  {
    assume a: "length pages = 3 \<and> (\<forall>page\<in>set pages. length page = 1000)"
    then obtain p0 p1 p2 where p: "pages = [p0, p1, p2]"
      by (cases pages; cases "tl pages"; cases "tl (tl pages)") auto
    with a have "length (concat pages) = 3000" by simp
    moreover have "concat pages = pages ! 0 @ pages ! 1 @ pages ! 2" using p by simp
    ultimately show "\<exists>objects. list_objects_in_bucket (paged_client pages) b = Some (Inr objects)
           \<and> length objects = 3000 \<and> objects = pages ! 0 @ pages ! 1 @ pages ! 2"
      using all by simp
  }
  {
    assume "list_objects_v2 cl b None = Inl e"
    then show "list_objects_in_bucket cl b = Some (Inl e)"
      unfolding list_objects_in_bucket_def by (intro list_loop_error) simp
  }
  {
    assume "t \<noteq> [] \<and> list_objects_v2 cl b (Some t) = Inl e"
    then show "list_loop cl b (Some t) acc = Some (Inl e)"
      by (intro list_loop_error) simp
  }
qed

theorem list_objects_in_bucket_paged_witness:
  "length [map numbered [0..<1000], map numbered [1000..<2000], map numbered [2000..<3000]] = 3
   \<and> length (map numbered [0..<1000]) = 1000
   \<and> length (map numbered [1000..<2000]) = 1000
   \<and> length (map numbered [2000..<3000]) = 1000
   \<and> list_objects_in_bucket
        (paged_client [map numbered [0..<1000], map numbered [1000..<2000],
                       map numbered [2000..<3000]]) ''bucket''
       = Some (Inr (map numbered [0..<1000] @ map numbered [1000..<2000]
                      @ map numbered [2000..<3000]))
   \<and> length (map numbered [0..<1000] @ map numbered [1000..<2000]
               @ map numbered [2000..<3000]) = 3000
   \<and> list_objects_v2 unreachable_client ''bucket'' None = Inl (ClientError ''timeout'')
   \<and> list_objects_in_bucket unreachable_client ''bucket'' = Some (Inl (ClientError ''timeout''))
   \<and> ''t'' \<noteq> []
   \<and> list_objects_v2 unreachable_client ''bucket'' (Some ''t'') = Inl (ClientError ''timeout'')
   \<and> list_loop unreachable_client ''bucket'' (Some ''t'') [numbered 0]
       = Some (Inl (ClientError ''timeout''))"
proof -
  define p0 where "p0 = map numbered [0..<1000]"
  define p1 where "p1 = map numbered [1000..<2000]"
  define p2 where "p2 = map numbered [2000..<3000]"
  have l0: "length p0 = 1000" unfolding p0_def by (simp only: length_map length_upt; simp)
  have l1: "length p1 = 1000" unfolding p1_def by (simp only: length_map length_upt; simp)
  have l2: "length p2 = 1000" unfolding p2_def by (simp only: length_map length_upt; simp)
  have h: "length [p0, p1, p2] = 3 \<and> (\<forall>page\<in>set [p0, p1, p2]. length page = 1000)"
    using l0 l1 l2 by simp
  have u1: "list_objects_v2 unreachable_client ''bucket'' None = Inl (ClientError ''timeout'')"
    by (simp add: unreachable_client_def)
  have u2: "''t'' \<noteq> [] \<and> list_objects_v2 unreachable_client ''bucket'' (Some ''t'')
              = Inl (ClientError ''timeout'')"
    by (simp add: unreachable_client_def)
  note inst = list_objects_in_bucket_paged [where pages = "[p0, p1, p2]" and b = "''bucket''"
      and cl = unreachable_client and e = "ClientError ''timeout''" and t = "''t''"
      and acc = "[numbered 0]"]
  from inst h obtain objects where
    o: "list_objects_in_bucket (paged_client [p0, p1, p2]) ''bucket'' = Some (Inr objects)"
       "length objects = 3000" "objects = [p0, p1, p2] ! 0 @ [p0, p1, p2] ! 1 @ [p0, p1, p2] ! 2"
    by blast
  from o have r: "list_objects_in_bucket (paged_client [p0, p1, p2]) ''bucket''
                   = Some (Inr (p0 @ p1 @ p2))"
    and len: "length (p0 @ p1 @ p2) = 3000" by simp_all
  from inst u1 have e1: "list_objects_in_bucket unreachable_client ''bucket''
                         = Some (Inl (ClientError ''timeout''))" by blast
  from inst u2 have e2: "list_loop unreachable_client ''bucket'' (Some ''t'') [numbered 0]
                         = Some (Inl (ClientError ''timeout''))" by blast
  have "length [p0, p1, p2] = 3" by simp
  with l0 l1 l2 r len u1 e1 u2 e2
  have "length [p0, p1, p2] = 3 \<and> length p0 = 1000 \<and> length p1 = 1000 \<and> length p2 = 1000
     \<and> list_objects_in_bucket (paged_client [p0, p1, p2]) ''bucket'' = Some (Inr (p0 @ p1 @ p2))
     \<and> length (p0 @ p1 @ p2) = 3000
     \<and> list_objects_v2 unreachable_client ''bucket'' None = Inl (ClientError ''timeout'')
     \<and> list_objects_in_bucket unreachable_client ''bucket''
         = Some (Inl (ClientError ''timeout''))
     \<and> ''t'' \<noteq> []
     \<and> list_objects_v2 unreachable_client ''bucket'' (Some ''t'') = Inl (ClientError ''timeout'')
     \<and> list_loop unreachable_client ''bucket'' (Some ''t'') [numbered 0]
         = Some (Inl (ClientError ''timeout''))"
    by blast
  then show ?thesis unfolding p0_def p1_def p2_def .
qed


section \<open>The whole run\<close>

lemma download_objects_run:
  assumes "download_objects cl files b lp fs = Inr s"
  obtains keys w where "get_download_log fs lp = Inr (keys, w)"
    "download_loop cl b lp files
       \<lparr>stats_of = zero_stats, downloaded_files = keys, disk = fs, logged = []\<rparr> = Inr s"
  using assms by (auto simp: download_objects_def split: sum.splits prod.splits)

lemma download_objects_tallied:
  assumes "download_objects cl files b lp fs = Inr s"
  shows "tallied s \<and> map fst (logged s) = map Key files
         \<and> downloaded (stats_of s) + skipped_logged (stats_of s)
            + skipped_exists (stats_of s) + failed (stats_of s) = length files"
  using assms
proof (cases rule: download_objects_run)
  case (1 keys w)
  have "tallied \<lparr>stats_of = zero_stats, downloaded_files = keys, disk = fs, logged = []\<rparr>"
    by (simp add: tallied_def zero_stats_def)
  from download_loop_logged [OF 1(2) this]
  have t: "tallied s" and k: "map fst (logged s) = map Key files" by simp_all
  have "length (map snd (logged s)) = length files"
    using k by (metis length_map)
  with t count_list_total [of "map snd (logged s)"] k show ?thesis
    by (simp add: tallied_def)
qed

lemma init_script_summary:
  assumes "init_script cl b lp fs = Some (Summary st reported, fs')"
  obtains objects files directories fs1 s where
    "list_objects_in_bucket cl b = Some (Inr objects)"
    "partition_objects objects = Inr (files, directories)"
    "create_directories directories lp fs = Inr fs1"
    "download_objects cl files b lp fs1 = Inr s"
    "st = stats_of s" "reported = length files" "fs' = disk s"
  using assms
  by (auto simp: init_script_def handle_exn_def
      split: sum.splits option.splits prod.splits if_splits)

lemma create_directories_ok:
  assumes "create_directories ds lp fs = Inr fs1"
  shows "\<forall>d\<in>set ds. \<forall>n. node_at fs1 (take n (comps (lp @ ''/'' @ Key d))) = Some Dir"
proof -
  from assms obtain fs0 where each: "create_each ds lp fs0 = Inr fs1"
    by (auto simp: create_directories_def split: sum.splits)
  from create_each_ok [OF each] show ?thesis by blast
qed

lemma create_directories_again:
  assumes "create_directories ds lp fs = Inr fs1" "dirs_kept fs1 fs'"
  shows "create_directories ds lp fs' = Inr fs'"
proof -
  from assms(1) obtain fs0 where
    mk: "os_makedirs fs lp = Inr fs0" and each: "create_each ds lp fs0 = Inr fs1"
    by (auto simp: create_directories_def split: sum.splits)
  from create_each_ok [OF each] have "dirs_kept fs0 fs1" by (simp add: only_new_dirs_kept)
  from this assms(2) have "dirs_kept fs0 fs'" by (rule dirs_kept_trans)
  with mk have "os_makedirs fs' lp = Inr fs'" by (rule os_makedirs_again)
  moreover from each assms(2) have "create_each ds lp fs' = Inr fs'" by (rule create_each_again)
  ultimately show ?thesis by (simp add: create_directories_def)
qed

text \<open>
  Claim C7. In a listing whose keys are not empty, the records whose key ends in the
  separator are the directory markers and all other records are the files. The markers
  are not given to \<open>download_objects\<close>: every classification it logs is for a file
  key, its counters sum to the number of files, and the reported that \<open>init_script\<close>
  reports is the number of records that are not markers. After the run every marker
  is a directory under the export path.
\<close>

theorem directory_markers_excluded:
  assumes keys: "[] \<notin> Key ` set objects"
  shows "partition_objects objects
           = Inr (filter (\<lambda>x. last (Key x) \<noteq> CHR ''/'') objects,
                  filter (\<lambda>x. last (Key x) = CHR ''/'') objects)
       \<and> (download_objects cl (filter (\<lambda>x. last (Key x) \<noteq> CHR ''/'') objects) b lp fs1 = Inr s \<longrightarrow>
            (\<forall>e\<in>set (logged s). is_file_key (fst e))
            \<and> downloaded (stats_of s) + skipped_logged (stats_of s)
               + skipped_exists (stats_of s) + failed (stats_of s)
              = length (filter (\<lambda>x. last (Key x) \<noteq> CHR ''/'') objects))
       \<and> (list_objects_in_bucket cl b = Some (Inr objects)
            \<and> init_script cl b lp fs = Some (Summary st reported, fs') \<longrightarrow>
            reported = length (filter (\<lambda>x. last (Key x) \<noteq> CHR ''/'') objects)
            \<and> downloaded st + skipped_logged st + skipped_exists st + failed st = reported
            \<and> (\<forall>d\<in>set objects. last (Key d) = CHR ''/'' \<longrightarrow>
                  node_at fs' (comps (lp @ ''/'' @ Key d)) = Some Dir))"
proof (intro conjI)
  let ?files = "filter (\<lambda>x. last (Key x) \<noteq> CHR ''/'') objects"
  let ?dirs = "filter (\<lambda>x. last (Key x) = CHR ''/'') objects"
  show part: "partition_objects objects = Inr (?files, ?dirs)"
    using keys by (rule partition_objects_filter)
  show "download_objects cl ?files b lp fs1 = Inr s \<longrightarrow>
            (\<forall>e\<in>set (logged s). is_file_key (fst e))
            \<and> downloaded (stats_of s) + skipped_logged (stats_of s)
               + skipped_exists (stats_of s) + failed (stats_of s) = length ?files"
  proof
    assume run: "download_objects cl ?files b lp fs1 = Inr s"
    from download_objects_tallied [OF run] have
      k: "map fst (logged s) = map Key ?files" and
      sum: "downloaded (stats_of s) + skipped_logged (stats_of s)
            + skipped_exists (stats_of s) + failed (stats_of s) = length ?files"
      by simp_all
    have "\<forall>e\<in>set (logged s). is_file_key (fst e)"
    proof
      fix e assume "e \<in> set (logged s)"
      then have "fst e \<in> set (map fst (logged s))" by simp
      with k have "fst e \<in> Key ` set ?files" by simp
      then obtain x where "x \<in> set objects" "last (Key x) \<noteq> CHR ''/''" "fst e = Key x"
        by auto
      moreover from this keys have "Key x \<noteq> []" by force
      ultimately show "is_file_key (fst e)" by (simp add: is_file_key_def)
    qed
    with sum show "(\<forall>e\<in>set (logged s). is_file_key (fst e))
            \<and> downloaded (stats_of s) + skipped_logged (stats_of s)
               + skipped_exists (stats_of s) + failed (stats_of s) = length ?files" by simp
  qed
  show "list_objects_in_bucket cl b = Some (Inr objects)
            \<and> init_script cl b lp fs = Some (Summary st reported, fs') \<longrightarrow>
            reported = length ?files
            \<and> downloaded st + skipped_logged st + skipped_exists st + failed st = reported
            \<and> (\<forall>d\<in>set objects. last (Key d) = CHR ''/'' \<longrightarrow>
                  node_at fs' (comps (lp @ ''/'' @ Key d)) = Some Dir)"
  proof
    assume a: "list_objects_in_bucket cl b = Some (Inr objects)
            \<and> init_script cl b lp fs = Some (Summary st reported, fs')"
    then have "init_script cl b lp fs = Some (Summary st reported, fs')" ..
    then show "reported = length ?files
            \<and> downloaded st + skipped_logged st + skipped_exists st + failed st = reported
            \<and> (\<forall>d\<in>set objects. last (Key d) = CHR ''/'' \<longrightarrow>
                  node_at fs' (comps (lp @ ''/'' @ Key d)) = Some Dir)"
    proof (cases rule: init_script_summary)
      case (1 objects' files directories fs0 s0)
      from a 1(1) have "objects' = objects" by simp
      with 1(2) part have f: "files = ?files" and d: "directories = ?dirs" by simp_all
      from download_objects_tallied [OF 1(4)] 1(5,6) f have
        sum: "downloaded st + skipped_logged st + skipped_exists st + failed st = reported"
        by simp
      from 1(4) obtain keys0 where
        loop: "download_loop cl b lp files
           \<lparr>stats_of = zero_stats, downloaded_files = keys0, disk = fs0, logged = []\<rparr> = Inr s0"
        by (rule download_objects_run)
      from download_loop_dirs_kept [OF loop] 1(7) have kept: "dirs_kept fs0 fs'" by simp
      have "\<forall>d\<in>set objects. last (Key d) = CHR ''/'' \<longrightarrow>
                  node_at fs' (comps (lp @ ''/'' @ Key d)) = Some Dir"
      proof (intro ballI impI)
        fix x assume "x \<in> set objects" "last (Key x) = CHR ''/''"
        then have "x \<in> set directories" using d by simp
        with create_directories_ok [OF 1(3)]
        have "node_at fs0 (take (length (comps (lp @ ''/'' @ Key x))) (comps (lp @ ''/'' @ Key x)))
                = Some Dir" by blast
        then have "node_at fs0 (comps (lp @ ''/'' @ Key x)) = Some Dir" by simp
        with kept show "node_at fs' (comps (lp @ ''/'' @ Key x)) = Some Dir"
          by (rule node_at_dirs_kept)
      qed
      with sum 1(6) f show ?thesis by blast
    qed
  qed
qed

lemma list_single_page:
  "list_objects_in_bucket
     \<lparr>list_objects_v2 =
        (\<lambda>bucket_name token.
           Inr \<lparr>Contents = Some objects, IsTruncated = False, NextContinuationToken = None\<rparr>),
      download_fileobj = dl\<rparr> b = Some (Inr objects)"
  unfolding list_objects_in_bucket_def
  by (subst list_loop.simps) simp

lemma list_demo_client:
  "list_objects_in_bucket (demo_client objects dl) b = Some (Inr objects)"
  unfolding demo_client_def by (rule list_single_page)

lemmas script_defs =
  init_script_def list_single_page partition_objects_def last_char_def
  create_directories_def handle_exn_def

theorem directory_markers_excluded_witness:
  "[] \<notin> Key ` set [\<lparr>Key = ''a.txt''\<rparr>, \<lparr>Key = ''docs/''\<rparr>, \<lparr>Key = ''docs/b.txt''\<rparr>]
   \<and> partition_objects [\<lparr>Key = ''a.txt''\<rparr>, \<lparr>Key = ''docs/''\<rparr>, \<lparr>Key = ''docs/b.txt''\<rparr>]
       = Inr ([\<lparr>Key = ''a.txt''\<rparr>, \<lparr>Key = ''docs/b.txt''\<rparr>], [\<lparr>Key = ''docs/''\<rparr>])
   \<and> list_objects_in_bucket
        (demo_client [\<lparr>Key = ''a.txt''\<rparr>, \<lparr>Key = ''docs/''\<rparr>, \<lparr>Key = ''docs/b.txt''\<rparr>] completes)
        ''bucket''
       = Some (Inr [\<lparr>Key = ''a.txt''\<rparr>, \<lparr>Key = ''docs/''\<rparr>, \<lparr>Key = ''docs/b.txt''\<rparr>])
   \<and> map_option fst
        (init_script
           (demo_client [\<lparr>Key = ''a.txt''\<rparr>, \<lparr>Key = ''docs/''\<rparr>, \<lparr>Key = ''docs/b.txt''\<rparr>] completes)
           ''bucket'' ''out'' empty_disk)
       = Some (Summary \<lparr>downloaded = 2, skipped_exists = 0, skipped_logged = 0, failed = 0\<rparr> 2)
   \<and> node_at
        (snd (the (init_script
           (demo_client [\<lparr>Key = ''a.txt''\<rparr>, \<lparr>Key = ''docs/''\<rparr>, \<lparr>Key = ''docs/b.txt''\<rparr>] completes)
           ''bucket'' ''out'' empty_disk)))
        [''out'', ''docs''] = Some Dir"
proof -
  let ?objs = "[\<lparr>Key = ''a.txt''\<rparr>, \<lparr>Key = ''docs/''\<rparr>, \<lparr>Key = ''docs/b.txt''\<rparr>]"
  let ?cl = "demo_client ?objs completes"
  let ?st = "\<lparr>downloaded = 2, skipped_exists = 0, skipped_logged = 0, failed = 0\<rparr>"
  have k: "[] \<notin> Key ` set ?objs" by simp
  have l: "list_objects_in_bucket ?cl ''bucket'' = Some (Inr ?objs)"
    by (rule list_demo_client)
  have v: "map_option fst (init_script ?cl ''bucket'' ''out'' empty_disk) = Some (Summary ?st 2)"
    by (simp add: script_defs run_defs fs_defs ledger_defs)
  then obtain fs' where i: "init_script ?cl ''bucket'' ''out'' empty_disk = Some (Summary ?st 2, fs')"
    by (cases "init_script ?cl ''bucket'' ''out'' empty_disk") auto
  note inst = directory_markers_excluded [OF k, where cl = ?cl and b = "''bucket''"
      and lp = "''out''" and fs = empty_disk and st = ?st and reported = 2 and fs' = fs']
  from inst have p: "partition_objects ?objs
       = Inr ([\<lparr>Key = ''a.txt''\<rparr>, \<lparr>Key = ''docs/b.txt''\<rparr>], [\<lparr>Key = ''docs/''\<rparr>])"
    by simp
  from inst l i have "\<forall>d\<in>set ?objs. last (Key d) = CHR ''/'' \<longrightarrow>
                  node_at fs' (comps (''out'' @ ''/'' @ Key d)) = Some Dir" by blast
  then have "node_at fs' (comps (''out'' @ ''/'' @ ''docs/'')) = Some Dir" by simp
  then have "node_at fs' [''out'', ''docs''] = Some Dir" by (simp add: comps_def)
  with i have "node_at (snd (the (init_script ?cl ''bucket'' ''out'' empty_disk)))
                 [''out'', ''docs''] = Some Dir" by simp
  with k p l v show ?thesis by blast
qed


section \<open>Running the pipeline again\<close>

lemma process_file_failed_mono:
  assumes "process_file cl b lp file s = Inr s'"
  shows "failed (stats_of s) \<le> failed (stats_of s')"
proof -
  from process_file_classifies [OF assms] obtain c keys fs' where
    "s' = classify (Key file) c keys fs' s" by blast
  then show ?thesis by (simp add: count_fields)
qed

lemma download_loop_failed_mono:
  "download_loop cl b lp files s = Inr s' \<Longrightarrow> failed (stats_of s) \<le> failed (stats_of s')"
proof (induction files arbitrary: s)
  case Nil
  then show ?case by simp
next
  case (Cons f files)
  from Cons.prems obtain s1 where
    s1: "process_file cl b lp f s = Inr s1" and
    rest: "download_loop cl b lp files s1 = Inr s'"
    by (auto split: sum.splits)
  from process_file_failed_mono [OF s1] Cons.IH [OF rest] show ?case by simp
qed

lemma process_file_in_sync:
  assumes run: "process_file cl b lp file s = Inr s'"
    and sync: "in_sync lp s"
    and nofail: "failed (stats_of s') = failed (stats_of s)"
  shows "in_sync lp s' \<and> set (downloaded_files s) \<subseteq> set (downloaded_files s')
         \<and> PyStr (Key file) \<in> set (downloaded_files s')"
  using run
proof (cases rule: process_file_cases)
  case Logged
  with sync show ?thesis by (simp add: in_sync_def)
next
  case (Exists fs')
  from save_download_log_on_disk [OF Exists(3)] Exists(4) show ?thesis
    by (auto simp: in_sync_def)
next
  case (Got fs1 keys fs2)
  from attempt_download_ok [OF Got(4)] Got(5) show ?thesis
    by (auto simp: in_sync_def)
next
  case (Lost fs1 keys e fs2 fs3)
  with nofail show ?thesis by (simp add: count_fields)
qed

lemma download_loop_in_sync:
  "download_loop cl b lp files s = Inr s' \<Longrightarrow> in_sync lp s \<Longrightarrow>
   failed (stats_of s') = failed (stats_of s) \<Longrightarrow>
   in_sync lp s' \<and> set (downloaded_files s) \<subseteq> set (downloaded_files s')
   \<and> (\<forall>f\<in>set files. PyStr (Key f) \<in> set (downloaded_files s'))"
proof (induction files arbitrary: s)
  case Nil
  then show ?case by simp
next
  case (Cons f files)
  from Cons.prems(1) obtain s1 where
    s1: "process_file cl b lp f s = Inr s1" and
    rest: "download_loop cl b lp files s1 = Inr s'"
    by (auto split: sum.splits)
  have m1: "failed (stats_of s) \<le> failed (stats_of s1)"
    using s1 by (rule process_file_failed_mono)
  have m2: "failed (stats_of s1) \<le> failed (stats_of s')"
    using rest by (rule download_loop_failed_mono)
  from m1 m2 Cons.prems(3) have e1: "failed (stats_of s1) = failed (stats_of s)"
    and e2: "failed (stats_of s') = failed (stats_of s1)" by simp_all
  from process_file_in_sync [OF s1 Cons.prems(2) e1] have
    y1: "in_sync lp s1" and sub1: "set (downloaded_files s) \<subseteq> set (downloaded_files s1)"
    and k1: "PyStr (Key f) \<in> set (downloaded_files s1)" by simp_all
  from Cons.IH [OF rest y1 e2] have
    y2: "in_sync lp s'" and sub2: "set (downloaded_files s1) \<subseteq> set (downloaded_files s')"
    and k2: "\<forall>f\<in>set files. PyStr (Key f) \<in> set (downloaded_files s')" by simp_all
  from sub1 sub2 have "set (downloaded_files s) \<subseteq> set (downloaded_files s')" by (rule subset_trans)
  moreover from sub2 k1 have "PyStr (Key f) \<in> set (downloaded_files s')" by (rule subsetD)
  ultimately show ?case using y2 k2 by simp
qed

lemma download_loop_all_logged:
  "(\<And>f. f \<in> set files \<Longrightarrow> PyStr (Key f) \<in> set (downloaded_files s)) \<Longrightarrow>
   download_loop cl b lp files s =
     Inr \<lparr>stats_of = (stats_of s)\<lparr>skipped_logged := skipped_logged (stats_of s) + length files\<rparr>,
          downloaded_files = downloaded_files s, disk = disk s,
          logged = logged s @ map (\<lambda>f. (Key f, Skipped_logged)) files\<rparr>"
proof (induction files arbitrary: s)
  case Nil
  then show ?case by simp
next
  case (Cons f files)
  let ?s1 = "classify (Key f) Skipped_logged (downloaded_files s) (disk s) s"
  have p: "process_file cl b lp f s = Inr ?s1"
    using Cons.prems [of f] by (simp add: process_file_def)
  have "download_loop cl b lp files ?s1 =
     Inr \<lparr>stats_of = (stats_of ?s1)\<lparr>skipped_logged := skipped_logged (stats_of ?s1) + length files\<rparr>,
          downloaded_files = downloaded_files ?s1, disk = disk ?s1,
          logged = logged ?s1 @ map (\<lambda>f. (Key f, Skipped_logged)) files\<rparr>"
    by (rule Cons.IH) (use Cons.prems in simp)
  with p show ?case by (simp add: count_def)
qed

text \<open>
  Claim C4, as amended. When a run of the pipeline ends with its summary and with no
  failed record, a second run against the same bucket, on the disk the first run has
  left, downloads nothing and skips every file as already logged, and leaves the disk
  as it is.
\<close>

theorem second_run_skips_all:
  assumes first: "init_script cl b lp fs = Some (Summary st reported, fs')"
    and nofail: "failed st = 0"
  shows "init_script cl b lp fs'
         = Some (Summary \<lparr>downloaded = 0, skipped_exists = 0, skipped_logged = reported,
                          failed = 0\<rparr> reported, fs')"
  using first
proof (cases rule: init_script_summary)
  case (1 objects files directories fs1 s)
  from 1(4) obtain keys w where
    g: "get_download_log fs1 lp = Inr (keys, w)" and
    loop: "download_loop cl b lp files
       \<lparr>stats_of = zero_stats, downloaded_files = keys, disk = fs1, logged = []\<rparr> = Inr s"
    by (rule download_objects_run)
  let ?s0 = "\<lparr>stats_of = zero_stats, downloaded_files = keys, disk = fs1, logged = []\<rparr>"
  have y0: "in_sync lp ?s0" using g by (simp add: in_sync_def on_disk_def)
  have f0: "failed (stats_of s) = failed (stats_of ?s0)"
    using nofail 1(5) by (simp add: zero_stats_def)
  from download_loop_in_sync [OF loop y0 f0] have
    y: "in_sync lp s" and all: "\<forall>f\<in>set files. PyStr (Key f) \<in> set (downloaded_files s)"
    by simp_all
  have kept: "dirs_kept fs1 fs'"
    using download_loop_dirs_kept [OF loop] 1(7) by simp
  have again: "create_directories directories lp fs' = Inr fs'"
    using 1(3) kept by (rule create_directories_again)
  obtain keys' w' where g': "get_download_log fs' lp = Inr (keys', w')"
    using get_download_log_returns by blast
  have "set keys' = on_disk fs' lp" using g' by (simp add: on_disk_def)
  with y 1(7) have "set keys' = set (downloaded_files s)" by (simp add: in_sync_def)
  with all have all': "\<And>f. f \<in> set files \<Longrightarrow> PyStr (Key f) \<in> set keys'" by simp
  let ?s0' = "\<lparr>stats_of = zero_stats, downloaded_files = keys', disk = fs', logged = []\<rparr>"
  have "download_loop cl b lp files ?s0' =
     Inr \<lparr>stats_of = (stats_of ?s0')\<lparr>skipped_logged := skipped_logged (stats_of ?s0') + length files\<rparr>,
          downloaded_files = downloaded_files ?s0', disk = disk ?s0',
          logged = logged ?s0' @ map (\<lambda>f. (Key f, Skipped_logged)) files\<rparr>"
    by (rule download_loop_all_logged) (use all' in simp)
  with g' have second: "download_objects cl files b lp fs' =
     Inr \<lparr>stats_of = \<lparr>downloaded = 0, skipped_exists = 0, skipped_logged = length files,
                       failed = 0\<rparr>,
          downloaded_files = keys', disk = fs',
          logged = map (\<lambda>f. (Key f, Skipped_logged)) files\<rparr>"
    by (simp add: download_objects_def zero_stats_def)
  show ?thesis
    using g' 1(1,2,6) again second by (simp add: init_script_def)
qed

theorem second_run_skips_all_witness:
  "map_option fst
     (init_script
        (demo_client [\<lparr>Key = ''a.txt''\<rparr>, \<lparr>Key = ''docs/''\<rparr>, \<lparr>Key = ''docs/b.txt''\<rparr>] completes)
        ''bucket'' ''out'' empty_disk)
     = Some (Summary \<lparr>downloaded = 2, skipped_exists = 0, skipped_logged = 0, failed = 0\<rparr> 2)
   \<and> failed \<lparr>downloaded = 2, skipped_exists = 0, skipped_logged = 0, failed = 0\<rparr> = 0
   \<and> map_option fst
       (init_script
          (demo_client [\<lparr>Key = ''a.txt''\<rparr>, \<lparr>Key = ''docs/''\<rparr>, \<lparr>Key = ''docs/b.txt''\<rparr>] completes)
          ''bucket'' ''out''
          (snd (the (init_script
             (demo_client [\<lparr>Key = ''a.txt''\<rparr>, \<lparr>Key = ''docs/''\<rparr>, \<lparr>Key = ''docs/b.txt''\<rparr>] completes)
             ''bucket'' ''out'' empty_disk))))
     = Some (Summary \<lparr>downloaded = 0, skipped_exists = 0, skipped_logged = 2, failed = 0\<rparr> 2)"
proof -
  let ?cl = "demo_client [\<lparr>Key = ''a.txt''\<rparr>, \<lparr>Key = ''docs/''\<rparr>, \<lparr>Key = ''docs/b.txt''\<rparr>] completes"
  let ?st = "\<lparr>downloaded = 2, skipped_exists = 0, skipped_logged = 0, failed = 0\<rparr>"
  have v: "map_option fst (init_script ?cl ''bucket'' ''out'' empty_disk) = Some (Summary ?st 2)"
    by (simp add: script_defs run_defs fs_defs ledger_defs)
  then obtain fs' where i: "init_script ?cl ''bucket'' ''out'' empty_disk = Some (Summary ?st 2, fs')"
    by (cases "init_script ?cl ''bucket'' ''out'' empty_disk") auto
  have n: "failed ?st = 0" by simp
  from second_run_skips_all [OF i n]
  have "init_script ?cl ''bucket'' ''out'' fs'
         = Some (Summary \<lparr>downloaded = 0, skipped_exists = 0, skipped_logged = 2, failed = 0\<rparr> 2,
                 fs')" .
  with i have "map_option fst
       (init_script ?cl ''bucket'' ''out'' (snd (the (init_script ?cl ''bucket'' ''out'' empty_disk))))
     = Some (Summary \<lparr>downloaded = 0, skipped_exists = 0, skipped_logged = 2, failed = 0\<rparr> 2)"
    by simp
  with v n show ?thesis by blast
qed

text \<open>
  Claim C4 as stated fails: when the download of the only file breaks, the first run
  reports one failed record and logs no key; the second run, on the disk the first
  has left, attempts the download again, so skipped_logged is 0 and not the number of
  files.
\<close>

theorem failed_first_run_counterexample:
  "map_option fst
     (init_script (demo_client [\<lparr>Key = ''a.txt''\<rparr>] breaks) ''bucket'' ''out'' empty_disk)
     = Some (Summary \<lparr>downloaded = 0, skipped_exists = 0, skipped_logged = 0, failed = 1\<rparr> 1)
   \<and> map_option fst
       (init_script (demo_client [\<lparr>Key = ''a.txt''\<rparr>] breaks) ''bucket'' ''out''
          (snd (the (init_script (demo_client [\<lparr>Key = ''a.txt''\<rparr>] breaks)
                       ''bucket'' ''out'' empty_disk))))
     = Some (Summary \<lparr>downloaded = 0, skipped_exists = 0, skipped_logged = 0, failed = 1\<rparr> 1)"
  by (simp add: script_defs run_defs fs_defs ledger_defs)

section \<open>A failed download\<close>




text \<open>
  The local file is not always opened. With the record \<open>docs/.\<close> the parent directory
  \<open>out/docs\<close> is created and is what the local path names: \<open>open\<close> raises, the handler
  finds that the path exists, and \<open>os.remove\<close> of a directory raises inside the
  handler, which ends the loop before the next record.
\<close>

lemma directory_at_the_local_path:
  "\<not> os_path_exists empty_disk ''out/docs/.''
   \<and> os_makedirs empty_disk (os_path_dirname ''out/docs/.'')
       = Inr (empty_disk([''out''] \<mapsto> Dir, [''out'', ''docs''] \<mapsto> Dir))
   \<and> open_w (empty_disk([''out''] \<mapsto> Dir, [''out'', ''docs''] \<mapsto> Dir)) ''out/docs/.''
       = Inl (IsADirectoryError, empty_disk([''out''] \<mapsto> Dir, [''out'', ''docs''] \<mapsto> Dir))
   \<and> map_sum fst logged
        (download_objects (demo_client [] completes) [\<lparr>Key = ''docs/.''\<rparr>, \<lparr>Key = ''a.txt''\<rparr>]
           ''bucket'' ''out'' empty_disk)
       = Inl IsADirectoryError"
  by (simp add: run_defs fs_defs ledger_defs)

section \<open>The classification of a file record\<close>





section \<open>The shape of the disk\<close>

text \<open>The operations keep every node in a directory.\<close>

lemma tree_new_dir:
  assumes "tree fs" "lookup fs cur = Some Dir" "fs (cur @ [c]) = None"
  shows "tree (fs(cur @ [c] \<mapsto> Dir))"
  unfolding tree_def
proof (intro allI impI)
  fix q :: "string list"
  assume q: "q \<noteq> []" and n: "(fs(cur @ [c] \<mapsto> Dir)) q \<noteq> None"
  show "lookup (fs(cur @ [c] \<mapsto> Dir)) (butlast q) = Some Dir"
  proof (cases "q = cur @ [c]")
    case True
    with assms(2,3) show ?thesis by (auto simp: lookup_def)
  next
    case False
    with n have "fs q \<noteq> None" by simp
    with assms(1) q have d: "lookup fs (butlast q) = Some Dir" unfolding tree_def by blast
    with assms(3) have "butlast q \<noteq> cur @ [c]" by (auto simp: lookup_def)
    with d show ?thesis by (auto simp: lookup_def split: if_splits)
  qed
qed

lemma mkdirs_tree:
  "tree fs \<Longrightarrow> lookup fs cur = Some Dir \<Longrightarrow>
   mkdirs fs cur cs = Inr fs' \<or> mkdirs fs cur cs = Inl (e, fs') \<Longrightarrow> tree fs'"
proof (induction cs arbitrary: fs cur)
  case Nil
  then show ?case by simp
next
  case (Cons c cs)
  consider (dot) "c = ''.''" | (dotdot) "c = ''..''" | (name) "c \<noteq> ''.''" "c \<noteq> ''..''"
    by blast
  then show ?case
  proof cases
    case dot
    with Cons.prems(3) have "mkdirs fs cur cs = Inr fs' \<or> mkdirs fs cur cs = Inl (e, fs')"
      by simp
    with Cons.prems(1,2) show ?thesis by (rule Cons.IH)
  next
    case dotdot
    show ?thesis
    proof (cases "lookup fs (butlast cur) = Some Dir")
      case True
      with dotdot Cons.prems(3)
      have "mkdirs fs (butlast cur) cs = Inr fs' \<or> mkdirs fs (butlast cur) cs = Inl (e, fs')"
        by simp
      with Cons.prems(1) True show ?thesis by (rule Cons.IH)
    next
      case False
      with dotdot Cons.prems(3) have "fs' = fs"
        by (auto split: option.splits node.splits)
      with Cons.prems(1) show ?thesis by simp
    qed
  next
    case name
    show ?thesis
    proof (cases "NAME_MAX < length c")
      case True
      with name Cons.prems(3) have "fs' = fs" by simp
      with Cons.prems(1) show ?thesis by simp
    next
      case len: False
      show ?thesis
      proof (cases "fs (cur @ [c])")
        case None
        let ?fsm = "fs(cur @ [c] \<mapsto> Dir)"
        have step: "mkdirs fs cur (c # cs) = mkdirs ?fsm (cur @ [c]) cs"
          using None name len by simp
        have t: "tree ?fsm" using Cons.prems(1,2) None by (rule tree_new_dir)
        have d: "lookup ?fsm (cur @ [c]) = Some Dir" by (simp add: lookup_def)
        from Cons.prems(3) have
          "mkdirs ?fsm (cur @ [c]) cs = Inr fs' \<or> mkdirs ?fsm (cur @ [c]) cs = Inl (e, fs')"
          unfolding step .
        with t d show ?thesis by (rule Cons.IH)
      next
        case (Some nd)
        show ?thesis
        proof (cases nd)
          case (File y)
          with Some name len Cons.prems(3) have "fs' = fs" by simp
          with Cons.prems(1) show ?thesis by simp
        next
          case Dir
          with Some have d: "lookup fs (cur @ [c]) = Some Dir" by (simp add: lookup_def)
          from Some Dir name len Cons.prems(3) have
            "mkdirs fs (cur @ [c]) cs = Inr fs' \<or> mkdirs fs (cur @ [c]) cs = Inl (e, fs')"
            by simp
          with Cons.prems(1) d show ?thesis by (rule Cons.IH)
        qed
      qed
    qed
  qed
qed

lemma os_makedirs_tree:
  assumes "tree fs" "os_makedirs fs p = Inr fs' \<or> os_makedirs fs p = Inl (e, fs')"
  shows "tree fs'"
proof (cases "path_error p")
  case (Some err)
  with assms show ?thesis by (simp add: os_makedirs_def)
next
  case None
  with assms(2) have "mkdirs fs [] (comps p) = Inr fs' \<or> mkdirs fs [] (comps p) = Inl (e, fs')"
    by (simp add: os_makedirs_def)
  moreover have "lookup fs [] = Some Dir" by (simp add: lookup_def)
  ultimately show ?thesis using assms(1) mkdirs_tree by blast
qed

lemma tree_file:
  assumes "tree fs" "loc \<noteq> []" "lookup fs (butlast loc) = Some Dir" "lookup fs loc \<noteq> Some Dir"
  shows "tree (fs(loc \<mapsto> File c))"
  unfolding tree_def
proof (intro allI impI)
  fix q :: "string list"
  assume q: "q \<noteq> []" and n: "(fs(loc \<mapsto> File c)) q \<noteq> None"
  show "lookup (fs(loc \<mapsto> File c)) (butlast q) = Some Dir"
  proof (cases "q = loc")
    case True
    from assms(2) have "butlast loc \<noteq> loc" by (metis append_butlast_last_id append_self_conv list.distinct(1))
    with True assms(3) show ?thesis by (auto simp: lookup_def split: if_splits)
  next
    case False
    with n have "fs q \<noteq> None" by simp
    with assms(1) q have d: "lookup fs (butlast q) = Some Dir" unfolding tree_def by blast
    with assms(4) have "butlast q \<noteq> loc" by auto
    with d show ?thesis by (auto simp: lookup_def split: if_splits)
  qed
qed

lemma tree_removed:
  assumes "tree fs" "lookup fs loc = Some (File c)"
  shows "tree (fs(loc := None))"
  unfolding tree_def
proof (intro allI impI)
  fix q :: "string list"
  assume q: "q \<noteq> []" and n: "(fs(loc := None)) q \<noteq> None"
  then have "fs q \<noteq> None" by (auto split: if_splits)
  with assms(1) q have d: "lookup fs (butlast q) = Some Dir" unfolding tree_def by blast
  with assms(2) have "butlast q \<noteq> loc" by auto
  with d show "lookup (fs(loc := None)) (butlast q) = Some Dir"
    by (auto simp: lookup_def split: if_splits)
qed

lemma open_w_tree:
  assumes "tree fs" "open_w fs p = Inr fs2"
  shows "tree (write_open fs2 p c)"
proof -
  from assms(2) obtain loc where
    lne: "loc \<noteq> []" and nd: "lookup fs loc \<noteq> Some Dir" and
    w: "write_open fs2 p c = fs(loc \<mapsto> File c)" and r: "resolve fs p = Inr loc"
    by (rule open_w_ok)
  have par: "lookup fs (butlast loc) = Some Dir"
  proof (cases "fs loc")
    case None
    with lne r assms(2) show ?thesis
      by (auto simp: open_w_def lookup_def split: option.splits node.splits if_splits)
  next
    case (Some n)
    with assms(1) lne show ?thesis unfolding tree_def by auto
  qed
  from assms(1) lne par nd have "tree (fs(loc \<mapsto> File c))" by (rule tree_file)
  with w show ?thesis by simp
qed

lemma save_download_log_tree:
  assumes "tree fs"
    "save_download_log fs lp keys = Inr fs' \<or> save_download_log fs lp keys = Inl (e, fs')"
  shows "tree fs'"
proof (cases "os_makedirs fs lp")
  case (Inl err)
  with assms(2) have "os_makedirs fs lp = Inl (e, fs')" by (simp add: save_download_log_def)
  with assms(1) show ?thesis using os_makedirs_tree by blast
next
  case (Inr fs1)
  with assms(1) have t1: "tree fs1" using os_makedirs_tree by blast
  show ?thesis
  proof (cases "open_w fs1 (log_filepath lp)")
    case (Inl err)
    with Inr assms(2) have "open_w fs1 (log_filepath lp) = Inl (e, fs')"
      by (simp add: save_download_log_def)
    then have "fs' = fs1" by (rule open_w_error)
    with t1 show ?thesis by simp
  next
    case o: (Inr fs2)
    with Inr assms(2) have "fs' = write_open fs2 (log_filepath lp) (ledger_doc keys)"
      by (simp add: save_download_log_def)
    with open_w_tree [OF t1 o] show ?thesis by simp
  qed
qed

lemma attempt_download_tree:
  assumes "tree fs1"
    "attempt_download cl b lp k mem fs1 = (keys, Inr fs2)
     \<or> attempt_download cl b lp k mem fs1 = (keys, Inl (e, fs2))"
  shows "tree fs2"
proof (cases "open_w fs1 (lp @ ''/'' @ k)")
  case (Inl err)
  with assms(2) have "open_w fs1 (lp @ ''/'' @ k) = Inl (e, fs2)"
    by (simp add: attempt_download_def Let_def)
  then have "fs2 = fs1" by (rule open_w_error)
  with assms(1) show ?thesis by simp
next
  case (Inr fso)
  show ?thesis
  proof (cases "download_fileobj cl b k")
    case (Completed x)
    from open_w_tree [OF assms(1) Inr] have t: "tree (write_open fso (lp @ ''/'' @ k) x)" .
    from assms(2) Inr Completed have
      "save_download_log (write_open fso (lp @ ''/'' @ k) x) lp (List.insert (PyStr k) mem) = Inr fs2
       \<or> save_download_log (write_open fso (lp @ ''/'' @ k) x) lp (List.insert (PyStr k) mem)
          = Inl (e, fs2)"
      by (auto simp: attempt_download_def add_to_download_log_def Let_def)
    with t show ?thesis by (rule save_download_log_tree)
  next
    case (Aborted x err)
    with assms(2) Inr have "fs2 = write_open fso (lp @ ''/'' @ k) x"
      by (simp add: attempt_download_def Let_def)
    with open_w_tree [OF assms(1) Inr] show ?thesis by simp
  qed
qed

lemma process_file_tree:
  assumes "process_file cl b lp file s = Inr s'" "tree (disk s)"
  shows "tree (disk s')"
  using assms(1)
proof (cases rule: process_file_cases)
  case Logged
  with assms(2) show ?thesis by simp
next
  case (Exists fs')
  from save_download_log_tree [OF assms(2)] Exists(3,4) show ?thesis by auto
next
  case (Got fs1 keys fs2)
  from Got(3) assms(2) have "tree fs1" using os_makedirs_tree by blast
  with Got(4) have "tree fs2" using attempt_download_tree by blast
  with Got(5) show ?thesis by simp
next
  case (Lost fs1 keys e fs2 fs3)
  from Lost(3) assms(2) have "tree fs1" using os_makedirs_tree by blast
  with Lost(4) have t2: "tree fs2" using attempt_download_tree by blast
  have "tree fs3"
  proof (cases "os_path_exists fs2 (lp @ ''/'' @ Key file)")
    case True
    with Lost(6) have "os_remove fs2 (lp @ ''/'' @ Key file) = Inr fs3" by simp
    then obtain loc c where "lookup fs2 loc = Some (File c)" "fs3 = fs2(loc := None)"
      by (rule os_remove_ok)
    with t2 show ?thesis by (simp add: tree_removed)
  next
    case False
    with Lost(6) t2 show ?thesis by simp
  qed
  with Lost(7) show ?thesis by simp
qed

section \<open>Durability of the download log\<close>

lemma recorded_snoc:
  "recorded (log @ [(k, c)]) =
     (if c = Downloaded \<or> c = Skipped_exists then insert (PyStr k) (recorded log)
      else recorded log)"
  by (auto simp: recorded_def)

lemma tree_missing:
  "tree fs \<Longrightarrow> lookup fs pre = None \<Longrightarrow> lookup fs (pre @ r) = None"
proof (induction r rule: rev_induct)
  case Nil
  then show ?case by simp
next
  case (snoc x r)
  from snoc.IH [OF snoc.prems] have n: "lookup fs (pre @ r) = None" .
  show ?case
  proof (rule ccontr)
    assume "lookup fs (pre @ r @ [x]) \<noteq> None"
    then have "fs (pre @ r @ [x]) \<noteq> None" by (simp add: lookup_def)
    with snoc.prems(1) have "lookup fs (butlast (pre @ r @ [x])) = Some Dir"
      unfolding tree_def by blast
    then have "lookup fs (pre @ r) = Some Dir" by (simp add: butlast_append)
    with n show False by simp
  qed
qed

lemma walk_descending:
  "''..'' \<notin> set cs \<Longrightarrow> walk fs cur cs = Inr loc \<Longrightarrow>
   loc = cur @ filter (\<lambda>c. c \<noteq> ''.'') cs"
proof (induction cs arbitrary: cur)
  case Nil
  then show ?case by simp
next
  case (Cons c cs)
  show ?case
  proof (cases "c = ''.''")
    case True
    with Cons.prems have "walk fs cur cs = Inr loc"
      by (auto split: option.splits node.splits)
    with Cons.IH [of cur] Cons.prems(1) True show ?thesis by simp
  next
    case False
    with Cons.prems have "walk fs (cur @ [c]) cs = Inr loc"
      by (auto split: if_splits)
    with Cons.IH [of "cur @ [c]"] Cons.prems(1) False show ?thesis by simp
  qed
qed

text \<open>A path without \<open>..\<close> that cannot be resolved on a disk and can be resolved once
  directories have been created leads through one of the new directories.\<close>

lemma walk_unblocked:
  "''..'' \<notin> set cs \<Longrightarrow> walk fs cur cs = Inl e \<Longrightarrow> walk fs' cur cs = Inr loc \<Longrightarrow>
   \<exists>r r'. lookup fs (cur @ r) \<noteq> Some Dir \<and> lookup fs' (cur @ r) = Some Dir \<and> loc = cur @ r @ r'"
proof (induction cs arbitrary: cur)
  case Nil
  then show ?case by simp
next
  case (Cons c cs)
  show ?case
  proof (cases "c = ''.''")
    case True
    with Cons.prems(3) have d': "lookup fs' cur = Some Dir" and w': "walk fs' cur cs = Inr loc"
      by (auto split: option.splits node.splits)
    show ?thesis
    proof (cases "lookup fs cur = Some Dir")
      case d: True
      with True Cons.prems(2) have "walk fs cur cs = Inl e" by simp
      from Cons.IH [OF _ this w'] Cons.prems(1) show ?thesis by simp
    next
      case False
      from walk_descending [OF _ w'] Cons.prems(1)
      have "loc = cur @ [] @ filter (\<lambda>c. c \<noteq> ''.'') cs" by simp
      with False d' show ?thesis by (metis append_Nil2)
    qed
  next
    case False
    with Cons.prems(1,3) have w': "walk fs' (cur @ [c]) cs = Inr loc"
      and len: "\<not> NAME_MAX < length c"
      by (auto split: if_splits)
    from Cons.prems(1) have "c \<noteq> ''..''" by auto
    with False len Cons.prems(2) have "walk fs (cur @ [c]) cs = Inl e" by simp
    from Cons.IH [OF _ this w'] Cons.prems(1) obtain r r' where
      "lookup fs ((cur @ [c]) @ r) \<noteq> Some Dir" "lookup fs' ((cur @ [c]) @ r) = Some Dir"
      "loc = (cur @ [c]) @ r @ r'" by auto
    then have "lookup fs (cur @ (c # r)) \<noteq> Some Dir \<and> lookup fs' (cur @ (c # r)) = Some Dir
       \<and> loc = cur @ (c # r) @ r'" by simp
    then show ?thesis by blast
  qed
qed

lemma resolve_unblocked:
  assumes "descending p" "tree fs" "only_new_dirs fs fs'"
    "resolve fs p = Inl e" "resolve fs' p = Inr loc"
  shows "lookup fs' loc = Some Dir \<or> lookup fs loc = None"
proof -
  from assms(4,5) have pe: "path_error p = None"
    and w: "walk fs [] (comps p) = Inl e" and w': "walk fs' [] (comps p) = Inr loc"
    by (auto simp: resolve_def split: option.splits)
  from walk_unblocked [OF _ w w'] assms(1) obtain r r' where
    a: "lookup fs r \<noteq> Some Dir" and b: "lookup fs' r = Some Dir" and l: "loc = r @ r'"
    by (auto simp: descending_def)
  from a b assms(3) have n: "lookup fs r = None"
    unfolding only_new_dirs_def lookup_def by (metis (full_types))
  show ?thesis
  proof (cases "r' = []")
    case True
    with b l show ?thesis by simp
  next
    case False
    from tree_missing [OF assms(2) n, of r'] l show ?thesis by simp
  qed
qed

lemma descending_log_filepath: "descending lp \<Longrightarrow> descending (log_filepath lp)"
  using comps_append [of lp DOWNLOAD_LOG_FILE]
  by (simp add: descending_def log_filepath_def) (simp add: comps_def DOWNLOAD_LOG_FILE_def)

lemma descending_local_filepath:
  "descending lp \<Longrightarrow> descending k \<Longrightarrow> descending (lp @ ''/'' @ k)"
  using comps_append [of lp k] by (simp add: descending_def)

lemma on_disk_unresolved: "resolve fs (log_filepath lp) = Inl e \<Longrightarrow> on_disk fs lp = {}"
  by (simp add: on_disk_def get_download_log_def os_path_exists_def)

lemma on_disk_no_file:
  assumes "resolve fs (log_filepath lp) = Inr loc"
    "lookup fs loc = None \<or> lookup fs loc = Some Dir"
  shows "on_disk fs lp = {}"
  using assms(2)
proof
  assume "lookup fs loc = None"
  with assms(1) show ?thesis
    by (simp add: on_disk_def get_download_log_def os_path_exists_def)
next
  assume "lookup fs loc = Some Dir"
  with assms(1) have "read_file fs (log_filepath lp) = Inl IsADirectoryError"
    by (simp add: read_file_def)
  then have "read_download_log fs lp = Inl IsADirectoryError"
    by (simp add: read_download_log_def)
  then show ?thesis by (simp add: on_disk_def get_download_log_def is_Exception_def)
qed

text \<open>New directories do not change what a reload of the download log yields.\<close>

lemma only_new_dirs_on_disk:
  assumes de: "descending lp" and tr: "tree fs" and on: "only_new_dirs fs fs'"
  shows "on_disk fs' lp = on_disk fs lp"
proof (cases "resolve fs (log_filepath lp)")
  case (Inl e)
  then have 1: "on_disk fs lp = {}" by (rule on_disk_unresolved)
  have "on_disk fs' lp = {}"
  proof (cases "resolve fs' (log_filepath lp)")
    case Inl
    then show ?thesis by (rule on_disk_unresolved)
  next
    case (Inr loc)
    from resolve_unblocked [OF descending_log_filepath [OF de] tr on Inl Inr]
    have "lookup fs' loc = Some Dir \<or> lookup fs loc = None" .
    moreover have "lookup fs loc = None \<Longrightarrow> lookup fs' loc = None \<or> lookup fs' loc = Some Dir"
      using on unfolding only_new_dirs_def lookup_def by (metis (full_types))
    ultimately have "lookup fs' loc = None \<or> lookup fs' loc = Some Dir" by blast
    with Inr show ?thesis by (rule on_disk_no_file)
  qed
  with 1 show ?thesis by simp
next
  case (Inr loc)
  from only_new_dirs_kept [OF on] Inr have r': "resolve fs' (log_filepath lp) = Inr loc"
    by (rule resolve_dirs_kept)
  from on have "fs' loc = fs loc \<or> (fs loc = None \<and> fs' loc = Some Dir)"
    by (simp add: only_new_dirs_def)
  then have "lookup fs' loc = lookup fs loc
      \<or> (lookup fs loc = None \<and> lookup fs' loc = Some Dir)"
    by (auto simp: lookup_def)
  then show ?thesis
  proof
    assume l: "lookup fs' loc = lookup fs loc"
    have "get_download_log fs' lp = get_download_log fs lp"
    proof (cases "lookup fs loc")
      case None
      with l Inr r' show ?thesis by (simp add: get_download_log_def os_path_exists_def)
    next
      case (Some nd)
      with l Inr r' have "read_file fs' (log_filepath lp) = read_file fs (log_filepath lp)"
        "os_path_exists fs' (log_filepath lp) = os_path_exists fs (log_filepath lp)"
        by (simp_all add: read_file_def os_path_exists_def)
      then show ?thesis by (simp add: get_download_log_def read_download_log_def)
    qed
    then show ?thesis by (simp add: on_disk_def)
  next
    assume a: "lookup fs loc = None \<and> lookup fs' loc = Some Dir"
    then have "on_disk fs lp = {}" using on_disk_no_file [OF Inr] by simp
    moreover from a have "on_disk fs' lp = {}" using on_disk_no_file [OF r'] by simp
    ultimately show ?thesis by simp
  qed
qed

text \<open>The local file that is opened after the test for existence has failed and the
  parent directory has been created is a new file.\<close>

lemma target_fresh:
  assumes de: "descending p" and tr: "tree fs" and on: "only_new_dirs fs fs1"
    and ne: "\<not> os_path_exists fs p" and r1: "resolve fs1 p = Inr loc"
    and nt: "\<not> trailing p" and nd: "lookup fs1 loc \<noteq> Some Dir"
  shows "lookup fs loc = None"
proof (cases "resolve fs p")
  case (Inl e)
  from resolve_unblocked [OF de tr on Inl r1] nd show ?thesis by simp
next
  case (Inr loc')
  from only_new_dirs_kept [OF on] Inr have "resolve fs1 p = Inr loc'" by (rule resolve_dirs_kept)
  with r1 have "loc' = loc" by simp
  with Inr ne nt show ?thesis
    by (auto simp: os_path_exists_def split: option.splits node.splits)
qed

lemma os_remove_file:
  assumes "os_remove fs p = Inr fs'"
  obtains loc c where "resolve fs p = Inr loc" "lookup fs loc = Some (File c)" "\<not> trailing p"
    "fs' = fs(loc := None)"
  using assms
  by (auto simp: os_remove_def split: sum.splits option.splits node.splits if_splits)

lemma download_loop_append:
  "download_loop cl b lp (xs @ ys) s =
     (case download_loop cl b lp xs s of
        Inl err \<Rightarrow> Inl err
      | Inr s1 \<Rightarrow> download_loop cl b lp ys s1)"
  by (induction xs arbitrary: s) (auto split: sum.splits)

lemma download_loop_tree:
  "download_loop cl b lp files s = Inr s' \<Longrightarrow> tree (disk s) \<Longrightarrow> tree (disk s')"
proof (induction files arbitrary: s)
  case Nil
  then show ?case by simp
next
  case (Cons f files)
  from Cons.prems(1) obtain s1 where
    s1: "process_file cl b lp f s = Inr s1" and
    rest: "download_loop cl b lp files s1 = Inr s'"
    by (auto split: sum.splits)
  from process_file_tree [OF s1 Cons.prems(2)] have "tree (disk s1)" .
  with rest show ?case by (rule Cons.IH)
qed

text \<open>An attempt that raises without the key in the set has not reached the save of the
  download log: the local file could not be opened or the transfer has broken. The
  handler then leaves the disk as it was before the iteration, up to new
  directories.\<close>

lemma unsaved_attempt:
  assumes de: "descending (lp @ ''/'' @ k)" and tr: "tree fs"
    and ne: "\<not> os_path_exists fs (lp @ ''/'' @ k)"
    and d1: "only_new_dirs fs fs1"
    and at: "attempt_download cl b lp k mem fs1 = (keys, Inl (e, fs2))"
    and nk: "PyStr k \<notin> set keys"
    and cu: "(if os_path_exists fs2 (lp @ ''/'' @ k)
              then os_remove fs2 (lp @ ''/'' @ k) else Inr fs2) = Inr fs3"
  shows "keys = mem \<and> only_new_dirs fs fs3"
proof (cases "open_w fs1 (lp @ ''/'' @ k)")
  case (Inl er)
  let ?p = "lp @ ''/'' @ k"
  from Inl at have k: "keys = mem" and o: "open_w fs1 ?p = Inl (e, fs2)"
    by (simp_all add: attempt_download_def Let_def)
  from o have e2: "fs2 = fs1" by (rule open_w_error)
  have "fs3 = fs1"
  proof (cases "os_path_exists fs1 ?p")
    case False
    with cu e2 show ?thesis by simp
  next
    case True
    with cu e2 have "os_remove fs1 ?p = Inr fs3" by simp
    then obtain loc c where "resolve fs1 ?p = Inr loc" "lookup fs1 loc = Some (File c)"
      "\<not> trailing ?p"
      by (rule os_remove_file)
    then have "open_w fs1 ?p = Inr (fs1(loc \<mapsto> File (Bytes [])))"
      by (simp add: open_w_def)
    with Inl show ?thesis by simp
  qed
  with k d1 show ?thesis by simp
next
  case (Inr fso)
  let ?p = "lp @ ''/'' @ k"
  show ?thesis
  proof (cases "download_fileobj cl b k")
    case (Completed x)
    with Inr at have "keys = List.insert (PyStr k) mem"
      by (auto simp: attempt_download_def add_to_download_log_def Let_def)
    with nk show ?thesis by simp
  next
    case (Aborted x err)
    from Inr obtain loc where
      r: "resolve fs1 ?p = Inr loc" and lne: "loc \<noteq> []" and nt: "\<not> trailing ?p" and
      nd: "lookup fs1 loc \<noteq> Some Dir" and
      w: "write_open fso ?p x = fs1(loc \<mapsto> File x)" and
      rw: "resolve (fs1(loc \<mapsto> File x)) ?p = Inr loc"
      by (rule open_w_ok)
    from Inr Aborted at w have k: "keys = mem" and e2: "fs2 = fs1(loc \<mapsto> File x)"
      by (simp_all add: attempt_download_def Let_def)
    have ex: "os_path_exists fs2 ?p"
      using rw nt lne e2 by (simp add: os_path_exists_def lookup_def)
    have "os_remove fs2 ?p = Inr (fs1(loc := None))"
      using rw nt lne e2 by (simp add: os_remove_def lookup_def)
    with cu ex have e3: "fs3 = fs1(loc := None)" by simp
    from target_fresh [OF de tr d1 ne r nt nd] lne have none: "fs loc = None"
      by (simp add: lookup_def)
    have "only_new_dirs fs fs3"
      unfolding only_new_dirs_def
    proof
      fix q
      from d1 have "fs1 q = fs q \<or> (fs q = None \<and> fs1 q = Some Dir)"
        by (simp add: only_new_dirs_def)
      with none e3 show "fs3 q = fs q \<or> (fs q = None \<and> fs3 q = Some Dir)"
        by (cases "q = loc") auto
    qed
    with k show ?thesis by simp
  qed
qed

text \<open>A key that is in the set without having been loaded or recorded stays so.\<close>

lemma process_file_settled:
  assumes run: "process_file cl b lp file s = Inr s'"
    and h: "set (downloaded_files s') \<subseteq> K \<union> recorded (logged s')"
  shows "set (downloaded_files s) \<subseteq> K \<union> recorded (logged s)"
  using run
proof (cases rule: process_file_cases)
  case Logged
  with h show ?thesis by (simp add: recorded_snoc)
next
  case (Exists fs')
  with h show ?thesis by (auto simp: recorded_snoc)
next
  case (Got fs1 keys fs2)
  from attempt_download_ok [OF Got(4)] have "keys = List.insert (PyStr (Key file)) (downloaded_files s)"
    by simp
  with Got h show ?thesis by (auto simp: recorded_snoc)
next
  case (Lost fs1 keys e fs2 fs3)
  have "set (downloaded_files s) \<subseteq> set keys"
    using Lost(4)
    by (auto simp: attempt_download_def add_to_download_log_def Let_def
        split: sum.splits transfer.splits)
  with Lost(7) h show ?thesis by (auto simp: recorded_snoc)
qed

lemma process_file_durable:
  assumes run: "process_file cl b lp file s = Inr s'"
    and dl: "descending lp" and dk: "descending (Key file)" and tr: "tree (disk s)"
    and h: "set (downloaded_files s') \<subseteq> K \<union> recorded (logged s')"
    and inv: "on_disk (disk s) lp = K \<union> recorded (logged s)"
      "set (downloaded_files s) = on_disk (disk s) lp"
  shows "on_disk (disk s') lp = K \<union> recorded (logged s')
         \<and> set (downloaded_files s') = on_disk (disk s') lp"
  using run
proof (cases rule: process_file_cases)
  case Logged
  with inv show ?thesis by (simp add: recorded_snoc)
next
  case (Exists fs')
  from save_download_log_on_disk [OF Exists(3)] Exists(4) inv show ?thesis
    by (simp add: recorded_snoc)
next
  case (Got fs1 keys fs2)
  from attempt_download_ok [OF Got(4)] Got(5) inv show ?thesis
    by (simp add: recorded_snoc)
next
  case (Lost fs1 keys e fs2 fs3)
  from Lost(7) h inv have "set keys \<subseteq> set (downloaded_files s)" by (simp add: recorded_snoc)
  with Lost(1) have nk: "PyStr (Key file) \<notin> set keys" by auto
  have d1: "only_new_dirs (disk s) fs1" using Lost(3) by (rule os_makedirs_only_new_dirs)
  from unsaved_attempt [OF descending_local_filepath [OF dl dk] tr Lost(2) d1 Lost(4) nk Lost(6)]
  have k: "keys = downloaded_files s" and d: "only_new_dirs (disk s) fs3" by simp_all
  from only_new_dirs_on_disk [OF dl tr d] have "on_disk fs3 lp = on_disk (disk s) lp" .
  with k Lost(7) inv show ?thesis by (simp add: recorded_snoc)
qed

lemma download_loop_durable:
  "download_loop cl b lp files s = Inr s' \<Longrightarrow> descending lp \<Longrightarrow>
   \<forall>f\<in>set files. descending (Key f) \<Longrightarrow> tree (disk s) \<Longrightarrow>
   set (downloaded_files s') \<subseteq> K \<union> recorded (logged s') \<Longrightarrow>
   on_disk (disk s) lp = K \<union> recorded (logged s) \<Longrightarrow>
   set (downloaded_files s) = on_disk (disk s) lp \<Longrightarrow>
   on_disk (disk s') lp = K \<union> recorded (logged s')
   \<and> set (downloaded_files s') = on_disk (disk s') lp"
proof (induction files arbitrary: s' rule: rev_induct)
  case Nil
  then show ?case by simp
next
  case (snoc f files)
  from snoc.prems(1) obtain s1 where
    l1: "download_loop cl b lp files s = Inr s1" and
    p: "process_file cl b lp f s1 = Inr s'"
    by (auto simp: download_loop_append split: sum.splits)
  from p snoc.prems(5) have h1: "set (downloaded_files s1) \<subseteq> K \<union> recorded (logged s1)"
    by (rule process_file_settled)
  from snoc.prems(3) have df: "\<forall>f\<in>set files. descending (Key f)" and dk: "descending (Key f)"
    by simp_all
  from snoc.IH [OF l1 snoc.prems(2) df snoc.prems(4) h1 snoc.prems(6,7)] have
    i1: "on_disk (disk s1) lp = K \<union> recorded (logged s1)" and
    i2: "set (downloaded_files s1) = on_disk (disk s1) lp" by simp_all
  from l1 snoc.prems(4) have t1: "tree (disk s1)" by (rule download_loop_tree)
  from p snoc.prems(2) dk t1 snoc.prems(5) i1 i2 show ?case by (rule process_file_durable)
qed

text \<open>
  Claim C3, as amended. \<open>add_to_download_log\<close> puts the key into the set and saves the
  whole set at once: when the save returns, a reload yields the set with the key. For
  a run of the loop that returns (over all records or, stopped between two iterations,
  over the first \<open>n\<close>), on a disk where every node lies in a directory, with an export
  path and keys that have no component \<open>..\<close>, and with a set in memory that holds only
  keys that were loaded at the start or are logged as downloaded or skipped_exists, a
  reload of the download log yields what it yielded at the start together with
  exactly the keys logged as downloaded or skipped_exists, and that is the set in
  memory.
\<close>

theorem download_log_durable:
  "(add_to_download_log fs0 lp k keys = (keys', Inr fs0') \<longrightarrow>
      keys' = List.insert (PyStr k) keys \<and> on_disk fs0' lp = insert (PyStr k) (set keys))
   \<and> (download_objects cl (take n files) b lp fs = Inr s
        \<and> tree fs \<and> descending lp \<and> (\<forall>f\<in>set (take n files). descending (Key f))
        \<and> set (downloaded_files s) \<subseteq> on_disk fs lp \<union> recorded (logged s) \<longrightarrow>
      on_disk (disk s) lp = on_disk fs lp \<union> recorded (logged s)
      \<and> set (downloaded_files s) = on_disk (disk s) lp)"
proof (rule conjI; rule impI)
  assume a: "add_to_download_log fs0 lp k keys = (keys', Inr fs0')"
  then have k: "keys' = List.insert (PyStr k) keys"
    and sv: "save_download_log fs0 lp keys' = Inr fs0'"
    by (auto simp: add_to_download_log_def Let_def)
  from save_download_log_on_disk [OF sv] k
  show "keys' = List.insert (PyStr k) keys \<and> on_disk fs0' lp = insert (PyStr k) (set keys)"
    by simp
next
  assume a: "download_objects cl (take n files) b lp fs = Inr s
        \<and> tree fs \<and> descending lp \<and> (\<forall>f\<in>set (take n files). descending (Key f))
        \<and> set (downloaded_files s) \<subseteq> on_disk fs lp \<union> recorded (logged s)"
  then have run: "download_objects cl (take n files) b lp fs = Inr s" by simp
  obtain keys0 w where g: "get_download_log fs lp = Inr (keys0, w)"
    using get_download_log_returns by blast
  let ?s0 = "\<lparr>stats_of = zero_stats, downloaded_files = keys0, disk = fs, logged = []\<rparr>"
  from run g have loop: "download_loop cl b lp (take n files) ?s0 = Inr s"
    by (simp add: download_objects_def)
  have i1: "on_disk (disk ?s0) lp = on_disk fs lp \<union> recorded (logged ?s0)"
    by (simp add: recorded_def)
  have i2: "set (downloaded_files ?s0) = on_disk (disk ?s0) lp"
    using g by (simp add: on_disk_def)
  from a have tr: "tree (disk ?s0)" and dl: "descending lp"
    and df: "\<forall>f\<in>set (take n files). descending (Key f)"
    and h: "set (downloaded_files s) \<subseteq> on_disk fs lp \<union> recorded (logged s)" by simp_all
  from download_loop_durable [OF loop dl df tr h i1 i2]
  show "on_disk (disk s) lp = on_disk fs lp \<union> recorded (logged s)
      \<and> set (downloaded_files s) = on_disk (disk s) lp" .
qed

theorem download_log_durable_witness:
  "add_to_download_log empty_disk ''out'' ''a.txt'' []
     = ([PyStr ''a.txt''],
        Inr (empty_disk([''out''] \<mapsto> Dir,
                        [''out'', ''download_log.json''] \<mapsto> File (ledger_doc [PyStr ''a.txt'']))))
   \<and> on_disk (empty_disk([''out''] \<mapsto> Dir,
                        [''out'', ''download_log.json''] \<mapsto> File (ledger_doc [PyStr ''a.txt''])))
        ''out'' = insert (PyStr ''a.txt'') (set [])
   \<and> map_sum fst (\<lambda>s. (logged s, downloaded_files s, get_download_log (disk s) ''out''))
        (download_objects
           (demo_client [] (\<lambda>k. if k = ''docs/./b.txt'' then breaks k else completes k))
           (take 2 [\<lparr>Key = ''a.txt''\<rparr>, \<lparr>Key = ''docs/./b.txt''\<rparr>, \<lparr>Key = ''c.txt''\<rparr>])
           ''bucket'' ''out'' empty_disk)
       = Inr ([(''a.txt'', Downloaded), (''docs/./b.txt'', Failed)], [PyStr ''a.txt''],
              Inr ([PyStr ''a.txt''], False))
   \<and> tree empty_disk
   \<and> descending ''out'' \<and> descending ''a.txt'' \<and> descending ''docs/./b.txt''
   \<and> set [PyStr ''a.txt'']
       \<subseteq> on_disk empty_disk ''out''
          \<union> recorded [(''a.txt'', Downloaded), (''docs/./b.txt'', Failed)]
   \<and> on_disk
        (disk (projr (download_objects
           (demo_client [] (\<lambda>k. if k = ''docs/./b.txt'' then breaks k else completes k))
           (take 2 [\<lparr>Key = ''a.txt''\<rparr>, \<lparr>Key = ''docs/./b.txt''\<rparr>, \<lparr>Key = ''c.txt''\<rparr>])
           ''bucket'' ''out'' empty_disk))) ''out''
       = on_disk empty_disk ''out''
         \<union> recorded [(''a.txt'', Downloaded), (''docs/./b.txt'', Failed)]"
proof -
  let ?cl = "demo_client [] (\<lambda>k. if k = ''docs/./b.txt'' then breaks k else completes k)"
  let ?files = "[\<lparr>Key = ''a.txt''\<rparr>, \<lparr>Key = ''docs/./b.txt''\<rparr>, \<lparr>Key = ''c.txt''\<rparr>]"
  let ?run = "download_objects ?cl (take 2 ?files) ''bucket'' ''out'' empty_disk"
  let ?fs0 = "empty_disk([''out''] \<mapsto> Dir,
                [''out'', ''download_log.json''] \<mapsto> File (ledger_doc [PyStr ''a.txt'']))"
  have add: "add_to_download_log empty_disk ''out'' ''a.txt'' [] = ([PyStr ''a.txt''], Inr ?fs0)"
    by (simp add: fs_defs ledger_defs)
  have v: "map_sum fst (\<lambda>s. (logged s, downloaded_files s, get_download_log (disk s) ''out'')) ?run
       = Inr ([(''a.txt'', Downloaded), (''docs/./b.txt'', Failed)], [PyStr ''a.txt''],
              Inr ([PyStr ''a.txt''], False))"
    by (simp add: run_defs fs_defs ledger_defs)
  then obtain s where s: "?run = Inr s" by (cases ?run) auto
  with v have l: "logged s = [(''a.txt'', Downloaded), (''docs/./b.txt'', Failed)]"
    and m: "downloaded_files s = [PyStr ''a.txt'']" by simp_all
  have tr: "tree empty_disk" by (simp add: tree_def empty_disk_def)
  have de: "descending ''out'' \<and> descending ''a.txt'' \<and> descending ''docs/./b.txt''"
    by (simp add: descending_def comps_def)
  then have df: "\<forall>f\<in>set (take 2 ?files). descending (Key f)" by simp
  have h: "set [PyStr ''a.txt'']
       \<subseteq> on_disk empty_disk ''out''
          \<union> recorded [(''a.txt'', Downloaded), (''docs/./b.txt'', Failed)]"
    by (simp add: recorded_def)
  from download_log_durable [of empty_disk "''out''" "''a.txt''" "[]" "[PyStr ''a.txt'']" ?fs0
      ?cl 2 ?files "''bucket''" empty_disk s] add s l m tr de df h
  have "on_disk ?fs0 ''out'' = insert (PyStr ''a.txt'') (set [])"
    and "on_disk (disk s) ''out''
          = on_disk empty_disk ''out''
            \<union> recorded [(''a.txt'', Downloaded), (''docs/./b.txt'', Failed)]"
    by simp_all
  with add v s tr de h show ?thesis by simp
qed

text \<open>
  Claim C3 as stated fails in its last part. From a fresh start with the records \<open>a/b\<close>
  and \<open>a\<close>, the first is downloaded, which makes the directory \<open>out/a\<close>; the second
  then finds that \<open>out/a\<close> exists and is skipped_exists: one file is reported
  downloaded, and a reload of the download log yields two keys. And from a fresh start
  with the records \<open>a.txt\<close> and \<open>x/../download_log.json\<close>, the first is downloaded and
  saved; the local path of the second does not exist as long as \<open>out/x\<close> is missing,
  and once that directory has been created it names the download log, which the
  attempt truncates and the handler of the broken transfer removes: one file is
  reported downloaded, and a reload of the download log yields no key.
\<close>

theorem existing_directory_counterexample:
  "get_download_log empty_disk ''out'' = Inr ([], False)
   \<and> map_sum fst (\<lambda>s. (stats_of s, logged s, get_download_log (disk s) ''out''))
        (download_objects (demo_client [] completes) [\<lparr>Key = ''a/b''\<rparr>, \<lparr>Key = ''a''\<rparr>]
           ''bucket'' ''out'' empty_disk)
       = Inr (\<lparr>downloaded = 1, skipped_exists = 1, skipped_logged = 0, failed = 0\<rparr>,
              [(''a/b'', Downloaded), (''a'', Skipped_exists)],
              Inr ([PyStr ''a'', PyStr ''a/b''], False))
   \<and> map_sum fst (\<lambda>s. (stats_of s, logged s, get_download_log (disk s) ''out''))
        (download_objects
           (demo_client [] (\<lambda>k. if k = ''a.txt'' then completes k else breaks k))
           [\<lparr>Key = ''a.txt''\<rparr>, \<lparr>Key = ''x/../download_log.json''\<rparr>]
           ''bucket'' ''out'' empty_disk)
       = Inr (\<lparr>downloaded = 1, skipped_exists = 0, skipped_logged = 0, failed = 1\<rparr>,
              [(''a.txt'', Downloaded), (''x/../download_log.json'', Failed)],
              Inr ([], False))"
  by (simp add: run_defs fs_defs ledger_defs)

end
